theory Spec2Isabelle
  imports Main "HOL-Library.Word"
begin

section \<open>The client transaction task of ClientTransactionTask.cc\<close>

text \<open>
  A shallow embedding of \<^verbatim>\<open>src/ClientTransactionTask.cc\<close>. Every C++ member function is a
  HOL function from the task (and, where the method belongs to an RPC object, the RPC) to
  the updated task. The collaborators reached through the \<^verbatim>\<open>ramcloud\<close> pointer (lease,
  RPC tracker, object finder, transport) are a record inside the task: what they return is
  a field, what the task tells them is appended to a log.
\<close>

subsection \<open>Values of the wire format\<close>

type_synonym u64 = "64 word"
type_synonym u32 = "32 word"

text \<open>
  Status codes. The source names \<^verbatim>\<open>STATUS_OK\<close> and \<^verbatim>\<open>STATUS_UNKNOWN_TABLET\<close> and treats every
  other code alike; the enumeration itself is declared outside this file.
\<close>

datatype Status =
    STATUS_OK
  | STATUS_UNKNOWN_TABLET
  | STATUS_OBJECT_DOESNT_EXIST
  | STATUS_OTHER nat

text \<open>\<^verbatim>\<open>WireFormat::TxDecision::Decision\<close>.\<close>

datatype Decision = TxDecision_COMMIT | TxDecision_ABORT | TxDecision_INVALID

text \<open>\<^verbatim>\<open>WireFormat::TxPrepare::Vote\<close>: the source only compares a vote with \<^verbatim>\<open>COMMIT\<close>.\<close>

datatype Vote = TxPrepare_COMMIT | TxPrepare_ABORT | TxPrepare_VOTE nat

text \<open>The task's own phases.\<close>

datatype TaskState = INIT | PREPARE | DECISION | DONE

text \<open>\<^verbatim>\<open>CacheEntry::Type\<close>; the last value stands for whatever reaches the \<^verbatim>\<open>default:\<close> branch of
  \<^verbatim>\<open>PrepareRpc::appendOp\<close>.\<close>

datatype EntryType = CacheEntry_READ | CacheEntry_REMOVE | CacheEntry_WRITE | CacheEntry_INVALID

text \<open>\<^verbatim>\<open>CacheEntry::State\<close>.\<close>

datatype EntryState = CacheEntry_PENDING | CacheEntry_PREPARE | CacheEntry_DECIDE

text \<open>\<^verbatim>\<open>RpcWrapper::RpcState\<close>, as far as this file reads or writes it.\<close>

datatype RpcState = NOT_STARTED | IN_PROGRESS | FINISHED | FAILED

record Lease =
  leaseId :: u64
  leaseTerm :: u64

record Session =
  serviceLocator :: string

record CacheKey =
  tableId :: u64
  keyHash :: u64

text \<open>
  A cache entry. The object buffer and the reject rules are carried as bytes: this file
  hands them to the request buffer and never looks inside.
\<close>

record CacheEntry =
  entryType :: EntryType
  objectBuf :: "8 word list option"
  rejectRules :: "8 word list"
  rpcId :: u64
  entryState :: EntryState

text \<open>A \<^verbatim>\<open>WireFormat::TxParticipant\<close>: table id, key hash, rpc id.\<close>

type_synonym TxParticipant = "u64 \<times> u64 \<times> u64"

subsection \<open>The collaborators behind the ramcloud pointer\<close>

text \<open>
  Modelled from the spec: the lease service, the RPC tracker, the object finder, the
  transport manager and the sessions are declared and implemented outside this file. The
  spec gives their signatures (section 6); the record holds what each returns next and
  logs every call that has an effect on them.
\<close>

record RamCloud =
  clientLease :: Lease
  nextRpcId :: u64
  trackerAckId :: u64
  objectFinder :: "u64 \<Rightarrow> u64 \<Rightarrow> Session"
  rpcFinishedCalls :: "u64 list"
  flushCalls :: "u64 list"
  flushSessionCalls :: "string list"
  sendRequestCalls :: "string list"

definition getLease :: "RamCloud \<Rightarrow> Lease" where
  "getLease rc = clientLease rc"

text \<open>
  Modelled from the spec: \<^verbatim>\<open>rpcTracker.newRpcIdBlock(task, n)\<close> returns the start of a
  contiguous range of \<open>n\<close> ids; the tracker moves past the range.
\<close>

definition newRpcIdBlock :: "RamCloud \<Rightarrow> nat \<Rightarrow> u64 \<times> RamCloud" where
  "newRpcIdBlock rc n = (nextRpcId rc, rc\<lparr>nextRpcId := nextRpcId rc + of_nat n\<rparr>)"

definition rpcFinished :: "u64 \<Rightarrow> RamCloud \<Rightarrow> RamCloud" where
  "rpcFinished i rc = rc\<lparr>rpcFinishedCalls := rpcFinishedCalls rc @ [i]\<rparr>"

definition lookup :: "RamCloud \<Rightarrow> u64 \<Rightarrow> u64 \<Rightarrow> Session" where
  "lookup rc t h = objectFinder rc t h"

definition flush :: "u64 \<Rightarrow> RamCloud \<Rightarrow> RamCloud" where
  "flush t rc = rc\<lparr>flushCalls := flushCalls rc @ [t]\<rparr>"

definition flushSession :: "string \<Rightarrow> RamCloud \<Rightarrow> RamCloud" where
  "flushSession l rc = rc\<lparr>flushSessionCalls := flushSessionCalls rc @ [l]\<rparr>"

definition sendRequest :: "Session \<Rightarrow> RamCloud \<Rightarrow> RamCloud" where
  "sendRequest s rc = rc\<lparr>sendRequestCalls := sendRequestCalls rc @ [serviceLocator s]\<rparr>"

subsection \<open>RPC objects\<close>

text \<open>
  The part of \<^verbatim>\<open>RpcWrapper\<close> the file uses: the session, the wrapper's state and the status
  of the response header. Both RPC classes extend it. A prepare RPC adds its \<^verbatim>\<open>ops\<close>
  array, the fields of its request header and the vote of its response; a decision RPC
  adds its \<^verbatim>\<open>ops\<close> array and the fields of its request header. The \<^verbatim>\<open>ops\<close> array holds
  iterators into the commit cache; here they are positions in the cache's iteration order
  (the cache is frozen once the task has left \<^verbatim>\<open>INIT\<close>). The bytes of the request buffer
  are not modelled. Field names of the two classes carry the prefixes \<open>p_\<close> and \<open>d_\<close>:
  \<open>p_opCount\<close> is \<^verbatim>\<open>reqHdr->opCount\<close> of a prepare RPC, \<open>d_participantCount\<close> is
  \<^verbatim>\<open>reqHdr->participantCount\<close> of a decision RPC.
\<close>

record RpcWrapper =
  session :: "Session option"
  rpcState :: RpcState
  responseStatus :: Status

record PrepareRpc = RpcWrapper +
  p_ops :: "nat list"
  p_lease :: Lease
  p_participantCount :: u32
  p_opCount :: u32
  p_ackId :: u64
  p_vote :: Vote

record DecisionRpc = RpcWrapper +
  d_ops :: "nat list"
  d_decision :: Decision
  d_leaseId :: u64
  d_participantCount :: u32

text \<open>
  Modelled from the spec: \<^verbatim>\<open>RpcWrapper::isReady\<close> is not in this file. Section 4.3 calls an
  RPC ready when its outcome has arrived: a response (any status) or a transport failure.
\<close>

definition isReady :: "'a RpcWrapper_scheme \<Rightarrow> bool" where
  "isReady rpc = (rpcState rpc = FINISHED \<or> rpcState rpc = FAILED)"

definition getState :: "'a RpcWrapper_scheme \<Rightarrow> RpcState" where
  "getState rpc = rpcState rpc"

subsection \<open>The task\<close>

text \<open>
  The commit cache is a \<^verbatim>\<open>std::multimap\<close>: the list is its iteration order, duplicates
  allowed. The cursor \<^verbatim>\<open>nextCacheEntry\<close> is a position in that list; the length of the list
  is \<^verbatim>\<open>commitCache.end()\<close>. The task's own \<^verbatim>\<open>state\<close> field is \<open>state\<close>; an entry's
  is \<open>entryState\<close>. The width of \<^verbatim>\<open>participantCount\<close> is declared in the header; the
  request headers hold the same count in a field that \<^verbatim>\<open>retryRequest\<close> compares with a
  \<^verbatim>\<open>uint32_t\<close> index, so it is a 32-bit counter here.
\<close>

record Task =
  ramcloud :: RamCloud
  participantCount :: u32
  participantList :: "TxParticipant list"
  state :: TaskState
  status :: Status
  decision :: Decision
  lease :: Lease
  txId :: u64
  prepareRpcs :: "PrepareRpc list"
  decisionRpcs :: "DecisionRpc list"
  commitCache :: "(CacheKey \<times> CacheEntry) list"
  nextCacheEntry :: nat

text \<open>
  What the build fixes and the file does not show: the two \<^verbatim>\<open>MAX_OBJECTS_PER_RPC\<close>
  constants of the header, and where a \<^verbatim>\<open>std::list\<close> iterator stands after \<^verbatim>\<open>++\<close> on the
  past-the-end position of a list with \<open>n\<close> elements. The C++ standard leaves the
  latter open; GNU's circular list moves to the first element (\<open>\<lambda>n. 0\<close>). Every theorem
  below holds for every choice.
\<close>

record Build =
  PrepareRpc_MAX_OBJECTS_PER_RPC :: u32
  DecisionRpc_MAX_OBJECTS_PER_RPC :: u32
  pastEndIncrement :: "nat \<Rightarrow> nat"

text \<open>The constructor. The value-initialised cursor is never read before it is set.\<close>

definition ClientTransactionTask :: "RamCloud \<Rightarrow> Task" where
  "ClientTransactionTask rc =
     \<lparr>ramcloud = rc,
      participantCount = 0,
      participantList = [],
      state = INIT,
      status = STATUS_OK,
      decision = TxDecision_INVALID,
      lease = \<lparr>leaseId = 0, leaseTerm = 0\<rparr>,
      txId = 0,
      prepareRpcs = [],
      decisionRpcs = [],
      commitCache = [],
      nextCacheEntry = 0\<rparr>"

subsection \<open>initTask\<close>

text \<open>
  The body of the \<^verbatim>\<open>while\<close> loop of \<^verbatim>\<open>initTask\<close> (\<open>i\<close> is the local counter before
  \<^verbatim>\<open>i++\<close>, the cursor is the task's), and the loop. The loop test
  \<^verbatim>\<open>nextCacheEntry != commitCache.end()\<close> is \<open><\<close> on positions (the cursor never passes
  the end). The closing \<^verbatim>\<open>assert\<close> compares the counter with the size of the cache.
\<close>

definition initTaskBody :: "u64 \<Rightarrow> Task \<Rightarrow> Task" where
  "initTaskBody i t =
     (let key = fst (commitCache t ! nextCacheEntry t);
          entry = snd (commitCache t ! nextCacheEntry t);
          entry' = entry\<lparr>rpcId := txId t + i\<rparr>
      in t\<lparr>commitCache := (commitCache t)[nextCacheEntry t := (key, entry')],
           participantList :=
             participantList t @ [(tableId key, keyHash key, rpcId entry')],
           participantCount := participantCount t + 1,
           nextCacheEntry := nextCacheEntry t + 1\<rparr>)"

function initTaskLoop :: "u64 \<Rightarrow> Task \<Rightarrow> u64 \<times> Task" where
  "initTaskLoop i t =
     (if nextCacheEntry t < length (commitCache t)
      then initTaskLoop (i + 1) (initTaskBody i t)
      else (i, t))"
  by pat_completeness auto
termination
  by (relation "measure (\<lambda>(i, t). length (commitCache t) - nextCacheEntry t)")
     (auto simp: initTaskBody_def Let_def)

declare initTaskLoop.simps [simp del]

definition initTask :: "Task \<Rightarrow> Task" where
  "initTask t =
     (let t1 = t\<lparr>lease := getLease (ramcloud t)\<rparr>;
          blk = newRpcIdBlock (ramcloud t1) (length (commitCache t1));
          t2 = t1\<lparr>txId := fst blk, ramcloud := snd blk\<rparr>;
          t3 = t2\<lparr>nextCacheEntry := 0\<rparr>
      in snd (initTaskLoop 0 t3))"

subsection \<open>Receiving: processPrepareRpcs and processDecisionRpcs\<close>

text \<open>
  \<^verbatim>\<open>std::list::erase\<close> at a position, and \<^verbatim>\<open>it++\<close> on a list of \<open>n\<close> elements. After
  \<^verbatim>\<open>it = list.erase(it)\<close> the iterator stands on the element that followed the erased one,
  which has the erased one's position in the shorter list.
\<close>

definition eraseAt :: "nat \<Rightarrow> 'a list \<Rightarrow> 'a list" where
  "eraseAt i xs = take i xs @ drop (Suc i) xs"

definition increment :: "Build \<Rightarrow> nat \<Rightarrow> nat \<Rightarrow> nat" where
  "increment b n it = (if it < n then it + 1 else pastEndIncrement b n)"

text \<open>
  The \<^verbatim>\<open>if\<close> chain in the body of the loop of \<^verbatim>\<open>processPrepareRpcs\<close>, for an RPC that is
  ready. A thrown \<^verbatim>\<open>ClientException\<close> is \<open>Inl\<close> of its status and the task as the throw
  leaves it.
\<close>

definition prepareRpcReady :: "PrepareRpc \<Rightarrow> Task \<Rightarrow> (Status \<times> Task) + Task" where
  "prepareRpcReady rpc t =
     (if getState rpc = FAILED then Inr t
      else if responseStatus rpc = STATUS_OK then
        (if p_vote rpc \<noteq> TxPrepare_COMMIT then Inr (t\<lparr>decision := TxDecision_ABORT\<rparr>)
         else Inr t)
      else if responseStatus rpc = STATUS_UNKNOWN_TABLET then Inr t
      else Inl (responseStatus rpc, t))"

lemma prepareRpcReady_rpcs:
  "prepareRpcReady rpc t = Inr t' \<Longrightarrow> prepareRpcs t' = prepareRpcs t"
  by (auto simp: prepareRpcReady_def split: if_splits)

text \<open>
  The \<^verbatim>\<open>for\<close> loop of \<^verbatim>\<open>processPrepareRpcs\<close>, \<open>it\<close> the position of the iterator. A position
  at or past the length is \<^verbatim>\<open>end()\<close>. The \<^verbatim>\<open>continue\<close> and the end of the body both reach the
  \<^verbatim>\<open>it++\<close> of the loop header; at the end of the body it follows the \<^verbatim>\<open>erase\<close>.
\<close>

function processPrepareLoop :: "Build \<Rightarrow> nat \<Rightarrow> Task \<Rightarrow> (Status \<times> Task) + Task" where
  "processPrepareLoop b it t =
     (if it < length (prepareRpcs t) then
        (if \<not> isReady (prepareRpcs t ! it) then
           processPrepareLoop b (increment b (length (prepareRpcs t)) it) t
         else
           (case prepareRpcReady (prepareRpcs t ! it) t of
              Inl e \<Rightarrow> Inl e
            | Inr t' \<Rightarrow>
                processPrepareLoop b
                  (increment b (length (eraseAt it (prepareRpcs t'))) it)
                  (t'\<lparr>prepareRpcs := eraseAt it (prepareRpcs t')\<rparr>)))
      else Inr t)"
  by pat_completeness auto
termination
proof (relation "measures [\<lambda>(b, it, t). length (prepareRpcs t),
                           \<lambda>(b, it, t). length (prepareRpcs t) - it]")
  show "wf (measures [\<lambda>(b, it, t). length (prepareRpcs t),
                      \<lambda>(b, it, t). length (prepareRpcs t) - it])"
    by simp
next
  fix b :: Build and it :: nat and t :: Task
  assume "it < length (prepareRpcs t)"
  then show "((b, increment b (length (prepareRpcs t)) it, t), (b, it, t))
      \<in> measures [\<lambda>(b, it, t). length (prepareRpcs t),
                    \<lambda>(b, it, t). length (prepareRpcs t) - it]"
    by (simp add: increment_def)
next
  fix b :: Build and it :: nat and t t' :: Task
  assume lt: "it < length (prepareRpcs t)"
    and r: "prepareRpcReady (prepareRpcs t ! it) t = Inr t'"
  have "prepareRpcs t' = prepareRpcs t"
    using r by (rule prepareRpcReady_rpcs)
  with lt have "length (eraseAt it (prepareRpcs t')) < length (prepareRpcs t)"
    by (simp add: eraseAt_def)
  then show "((b, increment b (length (eraseAt it (prepareRpcs t'))) it,
        t'\<lparr>prepareRpcs := eraseAt it (prepareRpcs t')\<rparr>), (b, it, t))
      \<in> measures [\<lambda>(b, it, t). length (prepareRpcs t),
                    \<lambda>(b, it, t). length (prepareRpcs t) - it]"
    by simp
qed

declare processPrepareLoop.simps [simp del]

definition processPrepareRpcs :: "Build \<Rightarrow> Task \<Rightarrow> (Status \<times> Task) + Task" where
  "processPrepareRpcs b t = processPrepareLoop b 0 t"

definition decisionRpcReady :: "DecisionRpc \<Rightarrow> Task \<Rightarrow> (Status \<times> Task) + Task" where
  "decisionRpcReady rpc t =
     (if getState rpc = FAILED then Inr t
      else if responseStatus rpc = STATUS_OK then Inr t
      else if responseStatus rpc = STATUS_UNKNOWN_TABLET then Inr t
      else Inl (responseStatus rpc, t))"

lemma decisionRpcReady_rpcs:
  "decisionRpcReady rpc t = Inr t' \<Longrightarrow> decisionRpcs t' = decisionRpcs t"
  by (auto simp: decisionRpcReady_def split: if_splits)

function processDecisionLoop :: "Build \<Rightarrow> nat \<Rightarrow> Task \<Rightarrow> (Status \<times> Task) + Task" where
  "processDecisionLoop b it t =
     (if it < length (decisionRpcs t) then
        (if \<not> isReady (decisionRpcs t ! it) then
           processDecisionLoop b (increment b (length (decisionRpcs t)) it) t
         else
           (case decisionRpcReady (decisionRpcs t ! it) t of
              Inl e \<Rightarrow> Inl e
            | Inr t' \<Rightarrow>
                processDecisionLoop b
                  (increment b (length (eraseAt it (decisionRpcs t'))) it)
                  (t'\<lparr>decisionRpcs := eraseAt it (decisionRpcs t')\<rparr>)))
      else Inr t)"
  by pat_completeness auto
termination
proof (relation "measures [\<lambda>(b, it, t). length (decisionRpcs t),
                           \<lambda>(b, it, t). length (decisionRpcs t) - it]")
  show "wf (measures [\<lambda>(b, it, t). length (decisionRpcs t),
                      \<lambda>(b, it, t). length (decisionRpcs t) - it])"
    by simp
next
  fix b :: Build and it :: nat and t :: Task
  assume "it < length (decisionRpcs t)"
  then show "((b, increment b (length (decisionRpcs t)) it, t), (b, it, t))
      \<in> measures [\<lambda>(b, it, t). length (decisionRpcs t),
                    \<lambda>(b, it, t). length (decisionRpcs t) - it]"
    by (simp add: increment_def)
next
  fix b :: Build and it :: nat and t t' :: Task
  assume lt: "it < length (decisionRpcs t)"
    and r: "decisionRpcReady (decisionRpcs t ! it) t = Inr t'"
  have "decisionRpcs t' = decisionRpcs t"
    using r by (rule decisionRpcReady_rpcs)
  with lt have "length (eraseAt it (decisionRpcs t')) < length (decisionRpcs t)"
    by (simp add: eraseAt_def)
  then show "((b, increment b (length (eraseAt it (decisionRpcs t'))) it,
        t'\<lparr>decisionRpcs := eraseAt it (decisionRpcs t')\<rparr>), (b, it, t))
      \<in> measures [\<lambda>(b, it, t). length (decisionRpcs t),
                    \<lambda>(b, it, t). length (decisionRpcs t) - it]"
    by simp
qed

declare processDecisionLoop.simps [simp del]

definition processDecisionRpcs :: "Build \<Rightarrow> Task \<Rightarrow> (Status \<times> Task) + Task" where
  "processDecisionRpcs b t = processDecisionLoop b 0 t"

subsection \<open>Methods of the RPC objects\<close>

text \<open>
  The constructors. The wrapper starts in \<^verbatim>\<open>NOT_STARTED\<close>; the response fields are read only
  once the wrapper's state is \<^verbatim>\<open>FINISHED\<close>, and \<^verbatim>\<open>ackId\<close> is written by \<^verbatim>\<open>send\<close>, so their
  first values are placeholders.
\<close>

definition PrepareRpc :: "Session \<Rightarrow> Task \<Rightarrow> PrepareRpc" where
  "PrepareRpc s task =
     \<lparr>session = Some s, rpcState = NOT_STARTED, responseStatus = STATUS_OK,
      p_ops = [], p_lease = lease task, p_participantCount = participantCount task,
      p_opCount = 0, p_ackId = 0, p_vote = TxPrepare_COMMIT\<rparr>"

definition DecisionRpc :: "Session \<Rightarrow> Task \<Rightarrow> DecisionRpc" where
  "DecisionRpc s task =
     \<lparr>session = Some s, rpcState = NOT_STARTED, responseStatus = STATUS_OK,
      d_ops = [], d_decision = decision task, d_leaseId = leaseId (lease task),
      d_participantCount = 0\<rparr>"

text \<open>
  \<^verbatim>\<open>appendOp\<close>. The store \<^verbatim>\<open>ops[count] = opEntry\<close> writes the first free slot of the array: the
  list holds the slots written so far and grows at its end. The three known types of
  \<^verbatim>\<open>PrepareRpc::appendOp\<close> differ only in the bytes they add to the request; any other type
  is logged and the method returns before it touches the entry or the count.
\<close>

definition PrepareRpc_appendOp :: "nat \<Rightarrow> PrepareRpc \<Rightarrow> Task \<Rightarrow> PrepareRpc \<times> Task" where
  "PrepareRpc_appendOp opEntry rpc t =
     (let key = fst (commitCache t ! opEntry);
          entry = snd (commitCache t ! opEntry)
      in if entryType entry = CacheEntry_READ \<or> entryType entry = CacheEntry_REMOVE
            \<or> entryType entry = CacheEntry_WRITE
         then (rpc\<lparr>p_ops := p_ops rpc @ [opEntry], p_opCount := p_opCount rpc + 1\<rparr>,
               t\<lparr>commitCache :=
                   (commitCache t)[opEntry := (key, entry\<lparr>entryState := CacheEntry_PREPARE\<rparr>)]\<rparr>)
         else (rpc, t))"

definition DecisionRpc_appendOp :: "nat \<Rightarrow> DecisionRpc \<Rightarrow> Task \<Rightarrow> DecisionRpc \<times> Task" where
  "DecisionRpc_appendOp opEntry rpc t =
     (let key = fst (commitCache t ! opEntry);
          entry = snd (commitCache t ! opEntry)
      in (rpc\<lparr>d_ops := d_ops rpc @ [opEntry],
               d_participantCount := d_participantCount rpc + 1\<rparr>,
          t\<lparr>commitCache :=
              (commitCache t)[opEntry := (key, entry\<lparr>entryState := CacheEntry_DECIDE\<rparr>)]\<rparr>))"

text \<open>
  \<^verbatim>\<open>send\<close>. In the source the RPC under construction already is the last element of the
  task's list (\<^verbatim>\<open>emplace_back\<close>) and is changed through the pointer \<^verbatim>\<open>nextRpc\<close>; nothing reads
  the list before \<^verbatim>\<open>send\<close>, so here the RPC is a local value that enters the list when it is
  sent. Its session is the one the constructor stored.
\<close>

definition PrepareRpc_send :: "PrepareRpc \<Rightarrow> Task \<Rightarrow> Task" where
  "PrepareRpc_send rpc t =
     (let rpc1 = rpc\<lparr>p_ackId := trackerAckId (ramcloud t)\<rparr>;
          rpc2 = rpc1\<lparr>rpcState := IN_PROGRESS\<rparr>
      in t\<lparr>prepareRpcs := prepareRpcs t @ [rpc2],
           ramcloud := (case session rpc2 of
                          Some s \<Rightarrow> sendRequest s (ramcloud t)
                        | None \<Rightarrow> ramcloud t)\<rparr>)"

definition DecisionRpc_send :: "DecisionRpc \<Rightarrow> Task \<Rightarrow> Task" where
  "DecisionRpc_send rpc t =
     (let rpc1 = rpc\<lparr>rpcState := IN_PROGRESS\<rparr>
      in t\<lparr>decisionRpcs := decisionRpcs t @ [rpc1],
           ramcloud := (case session rpc1 of
                          Some s \<Rightarrow> sendRequest s (ramcloud t)
                        | None \<Rightarrow> ramcloud t)\<rparr>)"

text \<open>
  \<^verbatim>\<open>retryRequest\<close>: the loop over the first \<^verbatim>\<open>count\<close> slots of \<^verbatim>\<open>ops\<close> (the same body in both
  classes), then the cursor goes back to \<^verbatim>\<open>commitCache.begin()\<close>.
\<close>

fun retryLoop :: "nat list \<Rightarrow> Task \<Rightarrow> Task" where
  "retryLoop [] t = t"
| "retryLoop (i # slots) t =
     retryLoop slots
       (t\<lparr>ramcloud := flush (tableId (fst (commitCache t ! i))) (ramcloud t),
          commitCache :=
            (commitCache t)[i := (fst (commitCache t ! i),
                                  (snd (commitCache t ! i))\<lparr>entryState := CacheEntry_PENDING\<rparr>)]\<rparr>)"

definition PrepareRpc_retryRequest :: "PrepareRpc \<Rightarrow> Task \<Rightarrow> Task" where
  "PrepareRpc_retryRequest rpc t =
     (retryLoop (take (unat (p_opCount rpc)) (p_ops rpc)) t)\<lparr>nextCacheEntry := 0\<rparr>"

definition DecisionRpc_retryRequest :: "DecisionRpc \<Rightarrow> Task \<Rightarrow> Task" where
  "DecisionRpc_retryRequest rpc t =
     (retryLoop (take (unat (d_participantCount rpc)) (d_ops rpc)) t)\<lparr>nextCacheEntry := 0\<rparr>"

text \<open>\<^verbatim>\<open>checkStatus\<close> and \<^verbatim>\<open>handleTransportError\<close>: the returned flag, the RPC and the task.\<close>

definition PrepareRpc_checkStatus :: "PrepareRpc \<Rightarrow> Task \<Rightarrow> bool \<times> Task" where
  "PrepareRpc_checkStatus rpc t =
     (if responseStatus rpc = STATUS_UNKNOWN_TABLET
      then (True, PrepareRpc_retryRequest rpc t)
      else (True, t))"

definition DecisionRpc_checkStatus :: "DecisionRpc \<Rightarrow> Task \<Rightarrow> bool \<times> Task" where
  "DecisionRpc_checkStatus rpc t =
     (if responseStatus rpc = STATUS_UNKNOWN_TABLET
      then (True, DecisionRpc_retryRequest rpc t)
      else (True, t))"

definition PrepareRpc_handleTransportError ::
    "PrepareRpc \<Rightarrow> Task \<Rightarrow> bool \<times> PrepareRpc \<times> Task" where
  "PrepareRpc_handleTransportError rpc t =
     (case session rpc of
        Some s \<Rightarrow>
          (let t1 = t\<lparr>ramcloud := flushSession (serviceLocator s) (ramcloud t)\<rparr>;
               rpc1 = rpc\<lparr>session := None\<rparr>
           in (True, rpc1, PrepareRpc_retryRequest rpc1 t1))
      | None \<Rightarrow> (True, rpc, PrepareRpc_retryRequest rpc t))"

definition DecisionRpc_handleTransportError ::
    "DecisionRpc \<Rightarrow> Task \<Rightarrow> bool \<times> DecisionRpc \<times> Task" where
  "DecisionRpc_handleTransportError rpc t =
     (case session rpc of
        Some s \<Rightarrow>
          (let t1 = t\<lparr>ramcloud := flushSession (serviceLocator s) (ramcloud t)\<rparr>;
               rpc1 = rpc\<lparr>session := None\<rparr>
           in (True, rpc1, DecisionRpc_retryRequest rpc1 t1))
      | None \<Rightarrow> (True, rpc, DecisionRpc_retryRequest rpc t))"

subsection \<open>Sending: sendPrepareRpc and sendDecisionRpc\<close>

lemma PrepareRpc_appendOp_length [simp]:
  "length (commitCache (snd (PrepareRpc_appendOp i r t))) = length (commitCache t)"
  by (simp add: PrepareRpc_appendOp_def Let_def)

lemma PrepareRpc_appendOp_cursor [simp]:
  "nextCacheEntry (snd (PrepareRpc_appendOp i r t)) = nextCacheEntry t"
  by (simp add: PrepareRpc_appendOp_def Let_def)

lemma DecisionRpc_appendOp_length [simp]:
  "length (commitCache (snd (DecisionRpc_appendOp i r t))) = length (commitCache t)"
  by (simp add: DecisionRpc_appendOp_def Let_def)

lemma DecisionRpc_appendOp_cursor [simp]:
  "nextCacheEntry (snd (DecisionRpc_appendOp i r t)) = nextCacheEntry t"
  by (simp add: DecisionRpc_appendOp_def Let_def)

text \<open>
  The \<^verbatim>\<open>for\<close> loop of \<^verbatim>\<open>sendPrepareRpc\<close>. The locals \<^verbatim>\<open>nextRpc\<close> and \<^verbatim>\<open>rpcSession\<close> are set
  together, so they are one optional pair: \<open>None\<close> is \<^verbatim>\<open>nextRpc == NULL\<close>. The result is the
  pair at the end of the loop and the task; \<^verbatim>\<open>break\<close> leaves the cursor on the entry that
  was not taken.
\<close>

function sendPrepareLoop ::
    "Build \<Rightarrow> (Session \<times> PrepareRpc) option \<Rightarrow> Task \<Rightarrow> (Session \<times> PrepareRpc) option \<times> Task" where
  "sendPrepareLoop b nextRpc t =
     (if nextCacheEntry t < length (commitCache t) then
        (if entryState (snd (commitCache t ! nextCacheEntry t)) = CacheEntry_PREPARE then
           sendPrepareLoop b nextRpc (t\<lparr>nextCacheEntry := nextCacheEntry t + 1\<rparr>)
         else
           (let key = fst (commitCache t ! nextCacheEntry t);
                opened = (case nextRpc of
                            None \<Rightarrow>
                              (lookup (ramcloud t) (tableId key) (keyHash key),
                               PrepareRpc (lookup (ramcloud t) (tableId key) (keyHash key)) t)
                          | Some p \<Rightarrow> p);
                session' = lookup (ramcloud t) (tableId key) (keyHash key)
            in if serviceLocator session' = serviceLocator (fst opened)
                  \<and> p_opCount (snd opened) < PrepareRpc_MAX_OBJECTS_PER_RPC b
               then
                 sendPrepareLoop b
                   (Some (fst opened,
                          fst (PrepareRpc_appendOp (nextCacheEntry t) (snd opened) t)))
                   ((snd (PrepareRpc_appendOp (nextCacheEntry t) (snd opened) t))
                      \<lparr>nextCacheEntry := nextCacheEntry t + 1\<rparr>)
               else (Some opened, t)))
      else (nextRpc, t))"
  by pat_completeness auto
termination
  by (relation "measure (\<lambda>(b, n, t). length (commitCache t) - nextCacheEntry t)")
     auto

declare sendPrepareLoop.simps [simp del]

definition sendPrepareRpc :: "Build \<Rightarrow> Task \<Rightarrow> Task" where
  "sendPrepareRpc b t =
     (case sendPrepareLoop b None t of
        (None, t') \<Rightarrow> t'
      | (Some (rpcSession, nextRpc), t') \<Rightarrow> PrepareRpc_send nextRpc t')"

function sendDecisionLoop ::
    "Build \<Rightarrow> (Session \<times> DecisionRpc) option \<Rightarrow> Task \<Rightarrow> (Session \<times> DecisionRpc) option \<times> Task" where
  "sendDecisionLoop b nextRpc t =
     (if nextCacheEntry t < length (commitCache t) then
        (if entryState (snd (commitCache t ! nextCacheEntry t)) = CacheEntry_DECIDE then
           sendDecisionLoop b nextRpc (t\<lparr>nextCacheEntry := nextCacheEntry t + 1\<rparr>)
         else
           (let key = fst (commitCache t ! nextCacheEntry t);
                opened = (case nextRpc of
                            None \<Rightarrow>
                              (lookup (ramcloud t) (tableId key) (keyHash key),
                               DecisionRpc (lookup (ramcloud t) (tableId key) (keyHash key)) t)
                          | Some p \<Rightarrow> p);
                session' = lookup (ramcloud t) (tableId key) (keyHash key)
            in if serviceLocator session' = serviceLocator (fst opened)
                  \<and> d_participantCount (snd opened) < DecisionRpc_MAX_OBJECTS_PER_RPC b
               then
                 sendDecisionLoop b
                   (Some (fst opened,
                          fst (DecisionRpc_appendOp (nextCacheEntry t) (snd opened) t)))
                   ((snd (DecisionRpc_appendOp (nextCacheEntry t) (snd opened) t))
                      \<lparr>nextCacheEntry := nextCacheEntry t + 1\<rparr>)
               else (Some opened, t)))
      else (nextRpc, t))"
  by pat_completeness auto
termination
  by (relation "measure (\<lambda>(b, n, t). length (commitCache t) - nextCacheEntry t)")
     auto

declare sendDecisionLoop.simps [simp del]

definition sendDecisionRpc :: "Build \<Rightarrow> Task \<Rightarrow> Task" where
  "sendDecisionRpc b t =
     (case sendDecisionLoop b None t of
        (None, t') \<Rightarrow> t'
      | (Some (rpcSession, nextRpc), t') \<Rightarrow> DecisionRpc_send nextRpc t')"

subsection \<open>performTask\<close>

text \<open>
  The block \<^verbatim>\<open>if (state == PREPARE) { ... }\<close> of \<^verbatim>\<open>performTask\<close>, and the block
  \<^verbatim>\<open>if (state == DECISION) { ... }\<close>. An exception of \<^verbatim>\<open>processPrepareRpcs\<close> or
  \<^verbatim>\<open>processDecisionRpcs\<close> leaves the block at once.
\<close>

definition prepareStep :: "Build \<Rightarrow> Task \<Rightarrow> (Status \<times> Task) + Task" where
  "prepareStep b t =
     (case processPrepareRpcs b t of
        Inl e \<Rightarrow> Inl e
      | Inr t1 \<Rightarrow>
          (let t2 = sendPrepareRpc b t1
           in if prepareRpcs t2 = [] \<and> nextCacheEntry t2 = length (commitCache t2) then
                (let t3 = t2\<lparr>nextCacheEntry := 0\<rparr>;
                     t4 = (if decision t3 \<noteq> TxDecision_ABORT
                           then t3\<lparr>decision := TxDecision_COMMIT\<rparr> else t3)
                 in Inr (t4\<lparr>state := DECISION\<rparr>))
              else Inr t2))"

definition decisionStep :: "Build \<Rightarrow> Task \<Rightarrow> (Status \<times> Task) + Task" where
  "decisionStep b t =
     (case processDecisionRpcs b t of
        Inl e \<Rightarrow> Inl e
      | Inr t1 \<Rightarrow>
          (let t2 = sendDecisionRpc b t1
           in if decisionRpcs t2 = [] \<and> nextCacheEntry t2 = length (commitCache t2) then
                (let t3 = t2\<lparr>ramcloud := rpcFinished (txId t2) (ramcloud t2)\<rparr>
                 in Inr (t3\<lparr>state := DONE\<rparr>))
              else Inr t2))"

text \<open>The \<^verbatim>\<open>try\<close> block: \<open>Inl\<close> is the exception that reaches the \<^verbatim>\<open>catch\<close>.\<close>

definition performTaskTry :: "Build \<Rightarrow> Task \<Rightarrow> (Status \<times> Task) + Task" where
  "performTaskTry b t =
     (let t1 = (if state t = INIT
                then (let t' = initTask t;
                          t'' = t'\<lparr>nextCacheEntry := 0\<rparr>
                      in t''\<lparr>state := PREPARE\<rparr>)
                else t)
      in case (if state t1 = PREPARE then prepareStep b t1 else Inr t1) of
           Inl e \<Rightarrow> Inl e
         | Inr t2 \<Rightarrow> (if state t2 = DECISION then decisionStep b t2 else Inr t2))"

text \<open>The \<^verbatim>\<open>catch (ClientException& e)\<close> block.\<close>

definition catchClientException :: "Status \<Rightarrow> Task \<Rightarrow> Task" where
  "catchClientException e t =
     (let t1 = t\<lparr>prepareRpcs := []\<rparr>;
          t2 = t1\<lparr>decisionRpcs := []\<rparr>;
          t3 = t2\<lparr>status := e\<rparr>;
          t4 = t3\<lparr>ramcloud := rpcFinished (txId t3) (ramcloud t3)\<rparr>
      in t4\<lparr>state := DONE\<rparr>)"

definition performTask :: "Build \<Rightarrow> Task \<Rightarrow> Task" where
  "performTask b t =
     (case performTaskTry b t of
        Inr t' \<Rightarrow> t'
      | Inl (e, t') \<Rightarrow> catchClientException e t')"

subsection \<open>Runs of a task\<close>

text \<open>
  Modelled from the spec: the transport and \<^verbatim>\<open>RpcWrapper\<close> are outside this file. By
  section 4.3, when the outcome of an RPC in flight arrives the RPC becomes ready: a
  transport failure marks it \<^verbatim>\<open>FAILED\<close> and runs its \<^verbatim>\<open>handleTransportError\<close>; a response
  marks it \<^verbatim>\<open>FINISHED\<close>, stores status and vote, and runs its \<^verbatim>\<open>checkStatus\<close>. \<open>i\<close> is the
  position of the RPC in the task's list.
\<close>

definition prepareResponseArrives :: "nat \<Rightarrow> Status \<Rightarrow> Vote \<Rightarrow> Task \<Rightarrow> Task" where
  "prepareResponseArrives i st v t =
     (let rpc = (prepareRpcs t ! i)\<lparr>rpcState := FINISHED, responseStatus := st, p_vote := v\<rparr>;
          t1 = t\<lparr>prepareRpcs := (prepareRpcs t)[i := rpc]\<rparr>
      in snd (PrepareRpc_checkStatus rpc t1))"

definition prepareTransportFails :: "nat \<Rightarrow> Task \<Rightarrow> Task" where
  "prepareTransportFails i t =
     (let rpc = (prepareRpcs t ! i)\<lparr>rpcState := FAILED\<rparr>;
          r = PrepareRpc_handleTransportError rpc t
      in (snd (snd r))\<lparr>prepareRpcs := (prepareRpcs (snd (snd r)))[i := fst (snd r)]\<rparr>)"

definition decisionResponseArrives :: "nat \<Rightarrow> Status \<Rightarrow> Task \<Rightarrow> Task" where
  "decisionResponseArrives i st t =
     (let rpc = (decisionRpcs t ! i)\<lparr>rpcState := FINISHED, responseStatus := st\<rparr>;
          t1 = t\<lparr>decisionRpcs := (decisionRpcs t)[i := rpc]\<rparr>
      in snd (DecisionRpc_checkStatus rpc t1))"

definition decisionTransportFails :: "nat \<Rightarrow> Task \<Rightarrow> Task" where
  "decisionTransportFails i t =
     (let rpc = (decisionRpcs t ! i)\<lparr>rpcState := FAILED\<rparr>;
          r = DecisionRpc_handleTransportError rpc t
      in (snd (snd r))\<lparr>decisionRpcs := (decisionRpcs (snd (snd r)))[i := fst (snd r)]\<rparr>)"

text \<open>
  One operation on a task: the manager calls \<^verbatim>\<open>performTask\<close>, the outcome of an RPC in
  flight arrives, or the collaborators change what they will answer (new routes after a
  flush, another lease, a tracker that has moved on) without touching the logs of what
  this task told them.
\<close>

inductive step :: "Build \<Rightarrow> Task \<Rightarrow> Task \<Rightarrow> bool" for b :: Build where
  perform: "step b t (performTask b t)"
| prepareResponse:
    "i < length (prepareRpcs t) \<Longrightarrow> rpcState (prepareRpcs t ! i) = IN_PROGRESS
       \<Longrightarrow> step b t (prepareResponseArrives i st v t)"
| prepareFailure:
    "i < length (prepareRpcs t) \<Longrightarrow> rpcState (prepareRpcs t ! i) = IN_PROGRESS
       \<Longrightarrow> step b t (prepareTransportFails i t)"
| decisionResponse:
    "i < length (decisionRpcs t) \<Longrightarrow> rpcState (decisionRpcs t ! i) = IN_PROGRESS
       \<Longrightarrow> step b t (decisionResponseArrives i st t)"
| decisionFailure:
    "i < length (decisionRpcs t) \<Longrightarrow> rpcState (decisionRpcs t ! i) = IN_PROGRESS
       \<Longrightarrow> step b t (decisionTransportFails i t)"
| collaborators:
    "rpcFinishedCalls rc = rpcFinishedCalls (ramcloud t)
       \<Longrightarrow> flushCalls rc = flushCalls (ramcloud t)
       \<Longrightarrow> flushSessionCalls rc = flushSessionCalls (ramcloud t)
       \<Longrightarrow> sendRequestCalls rc = sendRequestCalls (ramcloud t)
       \<Longrightarrow> step b t (t\<lparr>ramcloud := rc\<rparr>)"

text \<open>
  Modelled from the spec: \<^verbatim>\<open>findCacheEntry\<close> and \<^verbatim>\<open>insertCacheEntry\<close> fill the cache before
  the commit starts; the key hash, the object buffer and the default values of a new
  entry come from classes outside this file, and the callers set the type and the reject
  rules. A run therefore starts from the constructed task with any staged cache whose
  entries are all \<^verbatim>\<open>PENDING\<close> (section 3: the first state of an entry; the cache is frozen
  once the task has left \<^verbatim>\<open>INIT\<close>) and with empty logs; every later state comes from an
  operation.
\<close>

definition staged :: "RamCloud \<Rightarrow> (CacheKey \<times> CacheEntry) list \<Rightarrow> Task" where
  "staged rc c = (ClientTransactionTask rc)\<lparr>commitCache := c\<rparr>"

inductive reachable :: "Build \<Rightarrow> Task \<Rightarrow> bool" for b :: Build where
  start:
    "list_all (\<lambda>e. entryState (snd e) = CacheEntry_PENDING) c
       \<Longrightarrow> rpcFinishedCalls rc = [] \<Longrightarrow> flushCalls rc = []
       \<Longrightarrow> flushSessionCalls rc = [] \<Longrightarrow> sendRequestCalls rc = []
       \<Longrightarrow> reachable b (staged rc c)"
| operation: "reachable b t \<Longrightarrow> step b t t' \<Longrightarrow> reachable b t'"

section \<open>Concrete tasks\<close>

text \<open>
  A build with at most two objects per RPC, collaborators that route table 1 to one master
  and every other table to a second one, and a staged write.
\<close>

definition exampleBuild :: Build where
  "exampleBuild =
     \<lparr>PrepareRpc_MAX_OBJECTS_PER_RPC = 2, DecisionRpc_MAX_OBJECTS_PER_RPC = 2,
      pastEndIncrement = (\<lambda>n. 0)\<rparr>"

definition exampleRamCloud :: RamCloud where
  "exampleRamCloud =
     \<lparr>clientLease = \<lparr>leaseId = 5, leaseTerm = 9\<rparr>, nextRpcId = 10, trackerAckId = 3,
      objectFinder = (\<lambda>t h. \<lparr>serviceLocator = (if t = 1 then ''m1'' else ''m2'')\<rparr>),
      rpcFinishedCalls = [], flushCalls = [], flushSessionCalls = [],
      sendRequestCalls = []\<rparr>"

definition exampleEntry :: "u64 \<Rightarrow> u64 \<Rightarrow> CacheKey \<times> CacheEntry" where
  "exampleEntry t h =
     (\<lparr>tableId = t, keyHash = h\<rparr>,
      \<lparr>entryType = CacheEntry_WRITE, objectBuf = None, rejectRules = [], rpcId = 0,
       entryState = CacheEntry_PENDING\<rparr>)"

definition threeStaged :: Task where
  "threeStaged = staged exampleRamCloud [exampleEntry 1 1, exampleEntry 1 2, exampleEntry 1 3]"

definition twoSent :: Task where
  "twoSent = sendPrepareRpc exampleBuild (sendPrepareRpc exampleBuild threeStaged)"

definition oneSent :: Task where
  "oneSent = performTask exampleBuild (staged exampleRamCloud [exampleEntry 1 1])"

definition oneVoted :: Task where
  "oneVoted = prepareResponseArrives 0 STATUS_OK TxPrepare_COMMIT oneSent"

definition onePrepared :: Task where
  "onePrepared = performTask exampleBuild oneVoted"

definition decisionFailed :: Task where
  "decisionFailed = decisionResponseArrives 0 (STATUS_OTHER 7) onePrepared"

definition fatalInDecision :: Task where
  "fatalInDecision = performTask exampleBuild decisionFailed"

definition oneCommitted :: Task where
  "oneCommitted = performTask exampleBuild (decisionResponseArrives 0 STATUS_OK onePrepared)"

definition twoReady :: Task where
  "twoReady =
     prepareResponseArrives 1 STATUS_OK TxPrepare_COMMIT
       (prepareResponseArrives 0 STATUS_OK TxPrepare_COMMIT
          (performTask exampleBuild (performTask exampleBuild threeStaged)))"



definition twoDecisionsReady :: Task where
  "twoDecisionsReady =
     decisionResponseArrives 1 STATUS_OK
       (decisionResponseArrives 0 STATUS_OK
          (performTask exampleBuild
             (performTask exampleBuild (performTask exampleBuild twoReady))))"


section \<open>initTask\<close>

lemma initTaskBody_fields [simp]:
  "length (commitCache (initTaskBody i t)) = length (commitCache t)"
  "txId (initTaskBody i t) = txId t"
  "nextCacheEntry (initTaskBody i t) = nextCacheEntry t + 1"
  "participantCount (initTaskBody i t) = participantCount t + 1"
  "state (initTaskBody i t) = state t"
  "status (initTaskBody i t) = status t"
  "decision (initTaskBody i t) = decision t"
  "prepareRpcs (initTaskBody i t) = prepareRpcs t"
  "decisionRpcs (initTaskBody i t) = decisionRpcs t"
  "ramcloud (initTaskBody i t) = ramcloud t"
  "lease (initTaskBody i t) = lease t"
  by (simp_all add: initTaskBody_def Let_def)

lemma initTaskLoop_fields [simp]:
  "length (commitCache (snd (initTaskLoop i t))) = length (commitCache t)"
  "txId (snd (initTaskLoop i t)) = txId t"
  "state (snd (initTaskLoop i t)) = state t"
  "status (snd (initTaskLoop i t)) = status t"
  "decision (snd (initTaskLoop i t)) = decision t"
  "prepareRpcs (snd (initTaskLoop i t)) = prepareRpcs t"
  "decisionRpcs (snd (initTaskLoop i t)) = decisionRpcs t"
  "ramcloud (snd (initTaskLoop i t)) = ramcloud t"
  "lease (snd (initTaskLoop i t)) = lease t"
  by (induction i t rule: initTaskLoop.induct; subst initTaskLoop.simps; simp)+

lemma initTaskBody_entry:
  "j < length (commitCache t) \<Longrightarrow>
   commitCache (initTaskBody i t) ! j =
     (if j = nextCacheEntry t
      then (fst (commitCache t ! j), (snd (commitCache t ! j))\<lparr>rpcId := txId t + i\<rparr>)
      else commitCache t ! j)"
  by (simp add: initTaskBody_def Let_def nth_list_update)

lemma initTaskLoop_entry:
  "j < length (commitCache t) \<Longrightarrow>
   commitCache (snd (initTaskLoop i t)) ! j =
     (if j < nextCacheEntry t then commitCache t ! j
      else (fst (commitCache t ! j),
            (snd (commitCache t ! j))\<lparr>rpcId := txId t + i + of_nat (j - nextCacheEntry t)\<rparr>))"
proof (induction i t rule: initTaskLoop.induct)
  case (1 i t)
  show ?case
  proof (cases "nextCacheEntry t < length (commitCache t)")
    case False
    with "1.prems" show ?thesis
      by (subst initTaskLoop.simps) simp
  next
    case True
    have eq: "initTaskLoop i t = initTaskLoop (i + 1) (initTaskBody i t)"
      using True by (subst initTaskLoop.simps) simp
    have IH: "commitCache (snd (initTaskLoop (i + 1) (initTaskBody i t))) ! j =
       (if j < nextCacheEntry t + 1 then commitCache (initTaskBody i t) ! j
        else (fst (commitCache (initTaskBody i t) ! j),
              (snd (commitCache (initTaskBody i t) ! j))
                \<lparr>rpcId := txId t + (i + 1) + of_nat (j - (nextCacheEntry t + 1))\<rparr>))"
      using "1.IH"[OF True] "1.prems" by simp
    show ?thesis
      unfolding eq IH using "1.prems"
      by (auto simp: initTaskBody_entry Suc_diff_Suc add.assoc not_less less_Suc_eq)
  qed
qed

lemma initTaskLoop_participantList:
  "nextCacheEntry t \<le> length (commitCache t) \<Longrightarrow>
   participantList (snd (initTaskLoop i t)) =
     participantList t @
       map (\<lambda>j. (tableId (fst (commitCache t ! j)), keyHash (fst (commitCache t ! j)),
                  txId t + i + of_nat (j - nextCacheEntry t)))
           [nextCacheEntry t ..< length (commitCache t)]"
proof (induction i t rule: initTaskLoop.induct)
  case (1 i t)
  show ?case
  proof (cases "nextCacheEntry t < length (commitCache t)")
    case False
    with "1.prems" show ?thesis
      by (subst initTaskLoop.simps) simp
  next
    case True
    have eq: "initTaskLoop i t = initTaskLoop (i + 1) (initTaskBody i t)"
      using True by (subst initTaskLoop.simps) simp
    have pl: "participantList (initTaskBody i t) = participantList t @
        [(tableId (fst (commitCache t ! nextCacheEntry t)),
          keyHash (fst (commitCache t ! nextCacheEntry t)), txId t + i)]"
      by (simp add: initTaskBody_def Let_def)
    have keys: "\<And>j. Suc (nextCacheEntry t) \<le> j \<Longrightarrow> j < length (commitCache t) \<Longrightarrow>
        fst (commitCache (initTaskBody i t) ! j) = fst (commitCache t ! j)"
      by (simp add: initTaskBody_entry)
    have IH: "participantList (snd (initTaskLoop (i + 1) (initTaskBody i t))) =
       participantList (initTaskBody i t) @
       map (\<lambda>j. (tableId (fst (commitCache (initTaskBody i t) ! j)),
                  keyHash (fst (commitCache (initTaskBody i t) ! j)),
                  txId t + (i + 1) + of_nat (j - (nextCacheEntry t + 1))))
           [nextCacheEntry t + 1 ..< length (commitCache t)]"
      using "1.IH"[OF True] True by simp
    have split: "[nextCacheEntry t ..< length (commitCache t)] =
        nextCacheEntry t # [nextCacheEntry t + 1 ..< length (commitCache t)]"
      using True by (simp add: upt_conv_Cons)
    show ?thesis
      unfolding eq IH pl split
      by (auto simp: keys Suc_diff_Suc add.assoc)
  qed
qed

lemma initTaskLoop_participantCount:
  "nextCacheEntry t \<le> length (commitCache t) \<Longrightarrow>
   participantCount (snd (initTaskLoop i t)) =
     participantCount t + of_nat (length (commitCache t) - nextCacheEntry t)"
proof (induction i t rule: initTaskLoop.induct)
  case (1 i t)
  show ?case
  proof (cases "nextCacheEntry t < length (commitCache t)")
    case False
    with "1.prems" show ?thesis
      by (subst initTaskLoop.simps) simp
  next
    case True
    have eq: "initTaskLoop i t = initTaskLoop (i + 1) (initTaskBody i t)"
      using True by (subst initTaskLoop.simps) simp
    have "participantCount (snd (initTaskLoop (i + 1) (initTaskBody i t))) =
        participantCount t + 1 + of_nat (length (commitCache t) - (nextCacheEntry t + 1))"
      using "1.IH"[OF True] True by simp
    moreover have "length (commitCache t) - nextCacheEntry t =
        Suc (length (commitCache t) - (nextCacheEntry t + 1))"
      using True by simp
    ultimately show ?thesis
      unfolding eq by (simp add: add.assoc)
  qed
qed

lemma initTaskLoop_cursor:
  "nextCacheEntry t \<le> length (commitCache t) \<Longrightarrow>
   nextCacheEntry (snd (initTaskLoop i t)) = length (commitCache t)"
  by (induction i t rule: initTaskLoop.induct; subst initTaskLoop.simps; simp)


lemma word_of_nat_inj_small:
  "j < 2 ^ LENGTH('a::len) \<Longrightarrow> k < 2 ^ LENGTH('a) \<Longrightarrow>
   (of_nat j :: 'a word) = of_nat k \<Longrightarrow> j = k"
  by (simp add: word_of_nat_eq_iff take_bit_nat_eq_self)

lemma initTask_fields:
  "txId (initTask t) = nextRpcId (ramcloud t)"
  "length (commitCache (initTask t)) = length (commitCache t)"
  by (simp_all add: initTask_def Let_def newRpcIdBlock_def getLease_def)

lemma initTask_entry:
  "j < length (commitCache t) \<Longrightarrow>
   commitCache (initTask t) ! j =
     (fst (commitCache t ! j), (snd (commitCache t ! j))\<lparr>rpcId := txId (initTask t) + of_nat j\<rparr>)"
  by (simp add: initTask_fields(1))
     (simp add: initTask_def Let_def newRpcIdBlock_def getLease_def initTaskLoop_entry)

text \<open>
  C8. After \<^verbatim>\<open>initTask\<close> on a staged cache of \<open>n\<close> entries (\<open>n\<close> below \<open>2^32\<close>, the range of the
  participant counter): the cache keeps its keys and order, the entry at position \<open>j\<close>
  differs from the staged one only in \<open>rpcId = txId + j\<close>, the participant list is the
  \<open>n\<close> records (tableId, keyHash, txId + j) in cache order, the participant count is \<open>n\<close>, and
  the assigned rpc ids are pairwise distinct.
\<close>

theorem initTask_assigns_rpcIds:
  assumes small: "length c < 2 ^ 32"
  shows "length (commitCache (initTask (staged rc c))) = length c \<and>
    (\<forall>j < length c.
       commitCache (initTask (staged rc c)) ! j =
         (fst (c ! j), (snd (c ! j))\<lparr>rpcId := txId (initTask (staged rc c)) + of_nat j\<rparr>)) \<and>
    participantList (initTask (staged rc c)) =
      map (\<lambda>j. (tableId (fst (c ! j)), keyHash (fst (c ! j)),
                 txId (initTask (staged rc c)) + of_nat j)) [0..<length c] \<and>
    unat (participantCount (initTask (staged rc c))) = length c \<and>
    distinct (map (\<lambda>e. rpcId (snd e)) (commitCache (initTask (staged rc c))))"
proof -
  let ?t = "staged rc c"
  let ?t' = "initTask ?t"
  have c: "commitCache ?t = c" by (simp add: staged_def)
  have len: "length (commitCache ?t') = length c"
    by (simp add: initTask_fields c)
  have ent: "\<forall>j < length c. commitCache ?t' ! j =
         (fst (c ! j), (snd (c ! j))\<lparr>rpcId := txId ?t' + of_nat j\<rparr>)"
    using initTask_entry[of _ ?t] by (simp add: c)
  have pl: "participantList ?t' =
      map (\<lambda>j. (tableId (fst (c ! j)), keyHash (fst (c ! j)), txId ?t' + of_nat j))
          [0..<length c]"
    by (simp add: initTask_fields(1))
       (simp add: initTask_def Let_def newRpcIdBlock_def getLease_def
          initTaskLoop_participantList staged_def ClientTransactionTask_def)
  have "participantCount ?t' = of_nat (length c)"
    by (simp add: initTask_def Let_def newRpcIdBlock_def getLease_def
          initTaskLoop_participantCount staged_def ClientTransactionTask_def)
  then have pc: "unat (participantCount ?t') = length c"
    using small by (simp add: unat_of_nat take_bit_nat_eq_self)
  have ids: "map (\<lambda>e. rpcId (snd e)) (commitCache ?t') =
      map (\<lambda>j. txId ?t' + of_nat j) [0..<length c]"
    by (rule nth_equalityI) (simp_all add: len ent)
  have "inj_on (\<lambda>j. txId ?t' + (of_nat j :: u64)) {0..<length c}"
  proof (rule inj_onI)
    fix j k assume "j \<in> {0..<length c}" "k \<in> {0..<length c}"
      and "txId ?t' + (of_nat j :: u64) = txId ?t' + of_nat k"
    then have "j < 2 ^ 64" "k < 2 ^ 64" "(of_nat j :: u64) = of_nat k"
      using small by simp_all
    then show "j = k"
      using word_of_nat_inj_small[where 'a = 64, of j k] by simp
  qed
  then have dist: "distinct (map (\<lambda>e. rpcId (snd e)) (commitCache ?t'))"
    unfolding ids by (simp add: distinct_map)
  from len ent pl pc dist show ?thesis by blast
qed

theorem initTask_assigns_rpcIds_witness:
  "length [exampleEntry 1 1, exampleEntry 2 4] < 2 ^ 32 \<and>
   rpcId (snd (commitCache
     (initTask (staged exampleRamCloud [exampleEntry 1 1, exampleEntry 2 4])) ! 1)) = 11 \<and>
   participantList (initTask (staged exampleRamCloud [exampleEntry 1 1, exampleEntry 2 4]))
     = [(1, 1, 10), (2, 4, 11)] \<and>
   unat (participantCount
     (initTask (staged exampleRamCloud [exampleEntry 1 1, exampleEntry 2 4]))) = 2"
proof -
  let ?c = "[exampleEntry 1 1, exampleEntry 2 4]"
  have h: "length ?c < 2 ^ 32" by simp
  have tx: "txId (initTask (staged exampleRamCloud ?c)) = 10"
    by (simp add: initTask_fields staged_def ClientTransactionTask_def exampleRamCloud_def)
  note r = initTask_assigns_rpcIds[OF h, of exampleRamCloud]
  from r have e: "\<forall>j < length ?c. commitCache (initTask (staged exampleRamCloud ?c)) ! j =
         (fst (?c ! j), (snd (?c ! j))\<lparr>rpcId := txId (initTask (staged exampleRamCloud ?c)) + of_nat j\<rparr>)"
    by (elim conjE)
  from e[rule_format, of 1] have e1:
    "rpcId (snd (commitCache (initTask (staged exampleRamCloud ?c)) ! 1)) = 11"
    by (simp add: tx)
  from r have "participantList (initTask (staged exampleRamCloud ?c)) =
      map (\<lambda>j. (tableId (fst (?c ! j)), keyHash (fst (?c ! j)),
                 txId (initTask (staged exampleRamCloud ?c)) + of_nat j)) [0..<length ?c]"
    by (elim conjE)
  then have pl: "participantList (initTask (staged exampleRamCloud ?c)) = [(1, 1, 10), (2, 4, 11)]"
    unfolding tx by (simp add: exampleEntry_def upt_rec)
  from r have pc: "unat (participantCount (initTask (staged exampleRamCloud ?c))) = 2"
    by simp
  from h e1 pl pc show ?thesis by blast
qed


section \<open>What the loops leave unchanged\<close>

text \<open>The task a \<^verbatim>\<open>try\<close> block leaves behind, whether it returned or threw.\<close>

definition taskOf :: "(Status \<times> Task) + Task \<Rightarrow> Task" where
  "taskOf r = (case r of Inl (e, t) \<Rightarrow> t | Inr t \<Rightarrow> t)"

lemma taskOf_simps [simp]: "taskOf (Inl (e, t)) = t" "taskOf (Inr t) = t"
  by (simp_all add: taskOf_def)

lemma prepareRpcReady_cases:
  "prepareRpcReady rpc t = Inr t \<or>
   prepareRpcReady rpc t = Inr (t\<lparr>decision := TxDecision_ABORT\<rparr>) \<or>
   (prepareRpcReady rpc t = Inl (responseStatus rpc, t) \<and>
    responseStatus rpc \<noteq> STATUS_OK \<and> responseStatus rpc \<noteq> STATUS_UNKNOWN_TABLET)"
  by (simp add: prepareRpcReady_def)

lemma processPrepareLoop_shape:
  "\<exists>d rs. taskOf (processPrepareLoop b it t) = t\<lparr>decision := d, prepareRpcs := rs\<rparr>
     \<and> (d = decision t \<or> d = TxDecision_ABORT)"
proof (induction b it t rule: processPrepareLoop.induct)
  case (1 b it t)
  show ?case
  proof (cases "it < length (prepareRpcs t)")
    case False
    then have "processPrepareLoop b it t = Inr t"
      by (subst processPrepareLoop.simps) simp
    then have "taskOf (processPrepareLoop b it t) = t\<lparr>decision := decision t, prepareRpcs := prepareRpcs t\<rparr>"
      by simp
    then show ?thesis by blast
  next
    case lt: True
    show ?thesis
    proof (cases "isReady (prepareRpcs t ! it)")
      case False
      then have "processPrepareLoop b it t =
          processPrepareLoop b (increment b (length (prepareRpcs t)) it) t"
        using lt by (subst processPrepareLoop.simps) simp
      with "1.IH"(1)[OF lt False] show ?thesis by simp
    next
      case ready: True
      let ?rpc = "prepareRpcs t ! it"
      from prepareRpcReady_cases[of ?rpc t] show ?thesis
      proof (elim disjE conjE)
        assume r: "prepareRpcReady ?rpc t = Inr t"
        have eq: "processPrepareLoop b it t =
            processPrepareLoop b (increment b (length (eraseAt it (prepareRpcs t))) it)
              (t\<lparr>prepareRpcs := eraseAt it (prepareRpcs t)\<rparr>)"
          using lt ready r by (subst processPrepareLoop.simps) simp
        from "1.IH"(2)[OF lt _ r] ready
        obtain d rs where "taskOf (processPrepareLoop b (increment b (length (eraseAt it (prepareRpcs t))) it)
              (t\<lparr>prepareRpcs := eraseAt it (prepareRpcs t)\<rparr>)) =
              t\<lparr>prepareRpcs := eraseAt it (prepareRpcs t)\<rparr>\<lparr>decision := d, prepareRpcs := rs\<rparr>"
            and "d = decision t \<or> d = TxDecision_ABORT"
          by auto
        then show ?thesis unfolding eq by auto
      next
        assume r: "prepareRpcReady ?rpc t = Inr (t\<lparr>decision := TxDecision_ABORT\<rparr>)"
        have eq: "processPrepareLoop b it t =
            processPrepareLoop b (increment b (length (eraseAt it (prepareRpcs t))) it)
              (t\<lparr>decision := TxDecision_ABORT, prepareRpcs := eraseAt it (prepareRpcs t)\<rparr>)"
          using lt ready r by (subst processPrepareLoop.simps) simp
        from "1.IH"(2)[OF lt _ r] ready
        obtain d rs where "taskOf (processPrepareLoop b (increment b (length (eraseAt it (prepareRpcs t))) it)
              (t\<lparr>decision := TxDecision_ABORT, prepareRpcs := eraseAt it (prepareRpcs t)\<rparr>)) =
              t\<lparr>decision := TxDecision_ABORT, prepareRpcs := eraseAt it (prepareRpcs t)\<rparr>
               \<lparr>decision := d, prepareRpcs := rs\<rparr>"
            and "d = TxDecision_ABORT"
          by auto
        then show ?thesis unfolding eq by auto
      next
        assume r: "prepareRpcReady ?rpc t = Inl (responseStatus ?rpc, t)"
        have "processPrepareLoop b it t = Inl (responseStatus ?rpc, t)"
          using lt ready r by (subst processPrepareLoop.simps) simp
        then have "taskOf (processPrepareLoop b it t) = t\<lparr>decision := decision t, prepareRpcs := prepareRpcs t\<rparr>"
          by simp
        then show ?thesis by blast
      qed
    qed
  qed
qed

lemma processPrepareLoop_throw:
  "processPrepareLoop b it t = Inl (e, t') \<Longrightarrow>
     e \<noteq> STATUS_OK \<and> e \<noteq> STATUS_UNKNOWN_TABLET \<and> prepareRpcs t' \<noteq> []"
proof (induction b it t rule: processPrepareLoop.induct)
  case (1 b it t)
  from "1.prems" have lt: "it < length (prepareRpcs t)"
    by (subst (asm) processPrepareLoop.simps) (simp split: if_splits)
  show ?case
  proof (cases "isReady (prepareRpcs t ! it)")
    case False
    then have "processPrepareLoop b it t =
        processPrepareLoop b (increment b (length (prepareRpcs t)) it) t"
      using lt by (subst processPrepareLoop.simps) simp
    with "1.IH"(1)[OF lt False] "1.prems" show ?thesis by simp
  next
    case ready: True
    let ?rpc = "prepareRpcs t ! it"
    from prepareRpcReady_cases[of ?rpc t] show ?thesis
    proof (elim disjE conjE)
      assume r: "prepareRpcReady ?rpc t = Inr t"
      have eq: "processPrepareLoop b it t =
          processPrepareLoop b (increment b (length (eraseAt it (prepareRpcs t))) it)
            (t\<lparr>prepareRpcs := eraseAt it (prepareRpcs t)\<rparr>)"
        using lt ready r by (subst processPrepareLoop.simps) simp
      from "1.IH"(2)[OF lt _ r] ready "1.prems" show ?thesis unfolding eq by simp
    next
      assume r: "prepareRpcReady ?rpc t = Inr (t\<lparr>decision := TxDecision_ABORT\<rparr>)"
      have eq: "processPrepareLoop b it t =
          processPrepareLoop b (increment b (length (eraseAt it (prepareRpcs t))) it)
            (t\<lparr>decision := TxDecision_ABORT, prepareRpcs := eraseAt it (prepareRpcs t)\<rparr>)"
        using lt ready r by (subst processPrepareLoop.simps) simp
      from "1.IH"(2)[OF lt _ r] ready "1.prems" show ?thesis unfolding eq by simp
    next
      assume r: "prepareRpcReady ?rpc t = Inl (responseStatus ?rpc, t)"
        and ne: "responseStatus ?rpc \<noteq> STATUS_OK" "responseStatus ?rpc \<noteq> STATUS_UNKNOWN_TABLET"
      have "processPrepareLoop b it t = Inl (responseStatus ?rpc, t)"
        using lt ready r by (subst processPrepareLoop.simps) simp
      with "1.prems" ne lt show ?thesis by auto
    qed
  qed
qed


definition advancesTo :: "EntryState \<Rightarrow> CacheKey \<times> CacheEntry \<Rightarrow> CacheKey \<times> CacheEntry \<Rightarrow> bool" where
  "advancesTo s old new =
     (new = old \<or> (entryState (snd old) \<noteq> s \<and> new = (fst old, (snd old)\<lparr>entryState := s\<rparr>)))"

lemma advancesTo_refl [simp]: "advancesTo s x x"
  by (simp add: advancesTo_def)

lemma advancesTo_trans:
  "advancesTo s x y \<Longrightarrow> advancesTo s y z \<Longrightarrow> advancesTo s x z"
  by (auto simp: advancesTo_def)

lemma advancesTo_fst: "advancesTo s x y \<Longrightarrow> fst y = fst x"
  by (auto simp: advancesTo_def)

lemma list_all2_advancesTo_refl [simp]: "list_all2 (advancesTo s) c c"
  by (simp add: list_all2_refl)

lemma list_all2_advancesTo_trans:
  "list_all2 (advancesTo s) c c' \<Longrightarrow> list_all2 (advancesTo s) c' c''
     \<Longrightarrow> list_all2 (advancesTo s) c c''"
  by (rule list_all2_trans[where ?P1.0 = "advancesTo s" and ?P2.0 = "advancesTo s"])
     (auto intro: advancesTo_trans)

lemma list_all2_advancesTo_update:
  assumes "k < length c" "entryState (snd (c ! k)) \<noteq> s"
  shows "list_all2 (advancesTo s) c (c[k := (fst (c ! k), (snd (c ! k))\<lparr>entryState := s\<rparr>)])"
proof -
  have "list_all2 (advancesTo s) (c[k := c ! k])
          (c[k := (fst (c ! k), (snd (c ! k))\<lparr>entryState := s\<rparr>)])"
    using assms by (intro list_all2_update_cong) (simp_all add: advancesTo_def)
  then show ?thesis by simp
qed

lemma list_all2_advancesTo_keys:
  "list_all2 (advancesTo s) c c' \<Longrightarrow> map fst c' = map fst c"
  by (induction rule: list_all2_induct) (auto dest: advancesTo_fst)

lemma PrepareRpc_appendOp_shape:
  assumes "k < length (commitCache t)"
      "entryState (snd (commitCache t ! k)) \<noteq> CacheEntry_PREPARE"
  shows "\<exists>c. snd (PrepareRpc_appendOp k r t) = t\<lparr>commitCache := c\<rparr>
     \<and> list_all2 (advancesTo CacheEntry_PREPARE) (commitCache t) c"
proof (cases "entryType (snd (commitCache t ! k)) = CacheEntry_READ
     \<or> entryType (snd (commitCache t ! k)) = CacheEntry_REMOVE
     \<or> entryType (snd (commitCache t ! k)) = CacheEntry_WRITE")
  case True
  then have "snd (PrepareRpc_appendOp k r t) =
      t\<lparr>commitCache := (commitCache t)[k := (fst (commitCache t ! k),
           (snd (commitCache t ! k))\<lparr>entryState := CacheEntry_PREPARE\<rparr>)]\<rparr>"
    by (auto simp add: PrepareRpc_appendOp_def Let_def)
  with list_all2_advancesTo_update[OF assms] show ?thesis by blast
next
  case False
  then have "snd (PrepareRpc_appendOp k r t) = t\<lparr>commitCache := commitCache t\<rparr>"
    by (auto simp add: PrepareRpc_appendOp_def Let_def)
  then show ?thesis using list_all2_advancesTo_refl by blast
qed

lemma sendPrepareLoop_shape:
  "\<exists>c n. snd (sendPrepareLoop b nr t) = t\<lparr>commitCache := c, nextCacheEntry := n\<rparr>
     \<and> list_all2 (advancesTo CacheEntry_PREPARE) (commitCache t) c
     \<and> (nextCacheEntry t \<le> length (commitCache t) \<longrightarrow> n \<le> length (commitCache t))"
proof (induction b nr t rule: sendPrepareLoop.induct)
  case (1 b nr t)
  let ?k = "nextCacheEntry t"
  let ?c = "commitCache t"
  have trivial: "t = t\<lparr>commitCache := ?c, nextCacheEntry := ?k\<rparr>" by simp
  show ?case
  proof (cases "?k < length ?c")
    case False
    then have "sendPrepareLoop b nr t = (nr, t)"
      by (subst sendPrepareLoop.simps) simp
    then show ?thesis
      using trivial list_all2_advancesTo_refl
      by (metis snd_conv)
  next
    case lt: True
    show ?thesis
    proof (cases "entryState (snd (?c ! ?k)) = CacheEntry_PREPARE")
      case True
      then have eq: "sendPrepareLoop b nr t = sendPrepareLoop b nr (t\<lparr>nextCacheEntry := ?k + 1\<rparr>)"
        using lt by (subst sendPrepareLoop.simps) simp
      from "1.IH"(1)[OF lt True] lt show ?thesis
        unfolding eq by auto
    next
      case np: False
      define key where "key = fst (?c ! ?k)"
      define opened where "opened = (case nr of
                            None \<Rightarrow>
                              (lookup (ramcloud t) (tableId key) (keyHash key),
                               PrepareRpc (lookup (ramcloud t) (tableId key) (keyHash key)) t)
                          | Some p \<Rightarrow> p)"
      define session' where "session' = lookup (ramcloud t) (tableId key) (keyHash key)"
      let ?a = "PrepareRpc_appendOp ?k (snd opened) t"
      have unf: "sendPrepareLoop b nr t =
          (if serviceLocator session' = serviceLocator (fst opened)
                  \<and> p_opCount (snd opened) < PrepareRpc_MAX_OBJECTS_PER_RPC b
           then sendPrepareLoop b (Some (fst opened, fst ?a))
                  ((snd ?a)\<lparr>nextCacheEntry := ?k + 1\<rparr>)
           else (Some opened, t))"
        unfolding key_def opened_def session'_def using lt np
        by (subst sendPrepareLoop.simps) (simp add: Let_def)
      show ?thesis
      proof (cases "serviceLocator session' = serviceLocator (fst opened)
                  \<and> p_opCount (snd opened) < PrepareRpc_MAX_OBJECTS_PER_RPC b")
        case no: False
        have "sendPrepareLoop b nr t = (Some opened, t)"
          unfolding unf by (rule if_not_P[OF no])
        then show ?thesis
          using trivial list_all2_advancesTo_refl lt
          by (metis snd_conv less_imp_le)
      next
        case ok: True
        have eq: "sendPrepareLoop b nr t =
            sendPrepareLoop b (Some (fst opened, fst ?a)) ((snd ?a)\<lparr>nextCacheEntry := ?k + 1\<rparr>)"
          unfolding unf by (rule if_P[OF ok])
        from PrepareRpc_appendOp_shape[OF lt np, of "snd opened"]
        obtain c1 where a: "snd ?a = t\<lparr>commitCache := c1\<rparr>"
          and adv1: "list_all2 (advancesTo CacheEntry_PREPARE) ?c c1"
          by blast
        have len1: "length c1 = length ?c"
          using adv1 by (simp add: list_all2_lengthD)
        from "1.IH"(2)[OF lt np key_def opened_def session'_def ok]
        obtain c2 n where r: "snd (sendPrepareLoop b (Some (fst opened, fst ?a))
              ((snd ?a)\<lparr>nextCacheEntry := ?k + 1\<rparr>)) =
            (snd ?a)\<lparr>nextCacheEntry := ?k + 1\<rparr>\<lparr>commitCache := c2, nextCacheEntry := n\<rparr>"
          and adv2: "list_all2 (advancesTo CacheEntry_PREPARE)
              (commitCache ((snd ?a)\<lparr>nextCacheEntry := ?k + 1\<rparr>)) c2"
          and n: "nextCacheEntry ((snd ?a)\<lparr>nextCacheEntry := ?k + 1\<rparr>)
                 \<le> length (commitCache ((snd ?a)\<lparr>nextCacheEntry := ?k + 1\<rparr>))
               \<longrightarrow> n \<le> length (commitCache ((snd ?a)\<lparr>nextCacheEntry := ?k + 1\<rparr>))"
          by blast
        have "snd (sendPrepareLoop b nr t) = t\<lparr>commitCache := c2, nextCacheEntry := n\<rparr>"
          unfolding eq r by (simp add: a)
        moreover have "list_all2 (advancesTo CacheEntry_PREPARE) ?c c2"
          using adv1 adv2 by (auto simp: a intro: list_all2_advancesTo_trans)
        moreover have "n \<le> length ?c"
          using n lt by (simp add: a len1)
        ultimately show ?thesis by blast
      qed
    qed
  qed
qed


lemma word_inc_unat:
  fixes i m :: "'a::len word"
  assumes "i < m"
  shows "i + 1 \<le> m" "unat (i + 1) = Suc (unat i)"
  using assms by unat_arith+

definition preparedFor ::
    "Build \<Rightarrow> RamCloud \<Rightarrow> CacheKey list \<Rightarrow> nat \<Rightarrow> Session \<Rightarrow> PrepareRpc \<Rightarrow> bool" where
  "preparedFor b rc keys k s r =
     (session r = Some s \<and> rpcState r = NOT_STARTED
      \<and> p_opCount r \<le> PrepareRpc_MAX_OBJECTS_PER_RPC b
      \<and> unat (p_opCount r) = length (p_ops r)
      \<and> distinct (p_ops r)
      \<and> (\<forall>i \<in> set (p_ops r). i < k \<and> i < length keys
            \<and> serviceLocator (lookup rc (tableId (keys ! i)) (keyHash (keys ! i)))
                = serviceLocator s))"

lemma preparedFor_mono:
  "preparedFor b rc keys k s r \<Longrightarrow> k \<le> k' \<Longrightarrow> preparedFor b rc keys k' s r"
  by (auto simp: preparedFor_def)

lemma preparedFor_new:
  "preparedFor b rc keys k s (PrepareRpc s t)"
  by (simp add: preparedFor_def PrepareRpc_def)

lemma preparedFor_appendOp:
  assumes p: "preparedFor b (ramcloud t) (map fst (commitCache t)) k s r"
    and k: "k < length (commitCache t)"
    and loc: "serviceLocator (lookup (ramcloud t) (tableId (fst (commitCache t ! k)))
                (keyHash (fst (commitCache t ! k)))) = serviceLocator s"
    and room: "p_opCount r < PrepareRpc_MAX_OBJECTS_PER_RPC b"
  shows "preparedFor b (ramcloud t) (map fst (commitCache t)) (Suc k) s
           (fst (PrepareRpc_appendOp k r t))"
proof (cases "entryType (snd (commitCache t ! k)) = CacheEntry_READ
     \<or> entryType (snd (commitCache t ! k)) = CacheEntry_REMOVE
     \<or> entryType (snd (commitCache t ! k)) = CacheEntry_WRITE")
  case False
  then have "fst (PrepareRpc_appendOp k r t) = r"
    by (auto simp: PrepareRpc_appendOp_def Let_def)
  with preparedFor_mono[OF p, of "Suc k"] show ?thesis by simp
next
  case True
  then have eq: "fst (PrepareRpc_appendOp k r t) =
      r\<lparr>p_ops := p_ops r @ [k], p_opCount := p_opCount r + 1\<rparr>"
    by (auto simp: PrepareRpc_appendOp_def Let_def)
  show ?thesis
    unfolding eq using p k loc word_inc_unat[OF room]
    by (auto simp: preparedFor_def less_Suc_eq)
qed

lemma sendPrepareLoop_rpc:
  "(\<And>s r. nr = Some (s, r) \<Longrightarrow>
        preparedFor b (ramcloud t) (map fst (commitCache t)) (nextCacheEntry t) s r) \<Longrightarrow>
   fst (sendPrepareLoop b nr t) = Some (s', r') \<Longrightarrow>
   preparedFor b (ramcloud t) (map fst (commitCache t))
     (nextCacheEntry (snd (sendPrepareLoop b nr t))) s' r'"
proof (induction b nr t rule: sendPrepareLoop.induct)
  case (1 b nr t)
  let ?k = "nextCacheEntry t"
  let ?c = "commitCache t"
  show ?case
  proof (cases "?k < length ?c")
    case False
    then have "sendPrepareLoop b nr t = (nr, t)"
      by (subst sendPrepareLoop.simps) simp
    with "1.prems" show ?thesis by simp
  next
    case lt: True
    show ?thesis
    proof (cases "entryState (snd (?c ! ?k)) = CacheEntry_PREPARE")
      case True
      then have eq: "sendPrepareLoop b nr t = sendPrepareLoop b nr (t\<lparr>nextCacheEntry := ?k + 1\<rparr>)"
        using lt by (subst sendPrepareLoop.simps) simp
      have pre: "\<And>s r. nr = Some (s, r) \<Longrightarrow>
            preparedFor b (ramcloud (t\<lparr>nextCacheEntry := ?k + 1\<rparr>))
              (map fst (commitCache (t\<lparr>nextCacheEntry := ?k + 1\<rparr>)))
              (nextCacheEntry (t\<lparr>nextCacheEntry := ?k + 1\<rparr>)) s r"
        using "1.prems"(1) by (auto intro: preparedFor_mono)
      from "1.IH"(1)[OF lt True pre] "1.prems"(2) show ?thesis
        unfolding eq by simp
    next
      case np: False
      define key where "key = fst (?c ! ?k)"
      define opened where "opened = (case nr of
                            None \<Rightarrow>
                              (lookup (ramcloud t) (tableId key) (keyHash key),
                               PrepareRpc (lookup (ramcloud t) (tableId key) (keyHash key)) t)
                          | Some p \<Rightarrow> p)"
      define session' where "session' = lookup (ramcloud t) (tableId key) (keyHash key)"
      let ?a = "PrepareRpc_appendOp ?k (snd opened) t"
      have unf: "sendPrepareLoop b nr t =
          (if serviceLocator session' = serviceLocator (fst opened)
                  \<and> p_opCount (snd opened) < PrepareRpc_MAX_OBJECTS_PER_RPC b
           then sendPrepareLoop b (Some (fst opened, fst ?a))
                  ((snd ?a)\<lparr>nextCacheEntry := ?k + 1\<rparr>)
           else (Some opened, t))"
        unfolding key_def opened_def session'_def using lt np
        by (subst sendPrepareLoop.simps) (simp add: Let_def)
      have op: "preparedFor b (ramcloud t) (map fst ?c) ?k (fst opened) (snd opened)"
        using "1.prems"(1)
        by (cases nr) (auto simp: opened_def preparedFor_new)
      show ?thesis
      proof (cases "serviceLocator session' = serviceLocator (fst opened)
                  \<and> p_opCount (snd opened) < PrepareRpc_MAX_OBJECTS_PER_RPC b")
        case no: False
        have "sendPrepareLoop b nr t = (Some opened, t)"
          unfolding unf by (rule if_not_P[OF no])
        with op "1.prems"(2) show ?thesis by auto
      next
        case ok: True
        have eq: "sendPrepareLoop b nr t =
            sendPrepareLoop b (Some (fst opened, fst ?a)) ((snd ?a)\<lparr>nextCacheEntry := ?k + 1\<rparr>)"
          unfolding unf by (rule if_P[OF ok])
        from PrepareRpc_appendOp_shape[OF lt np, of "snd opened"]
        obtain c1 where a: "snd ?a = t\<lparr>commitCache := c1\<rparr>"
          and adv1: "list_all2 (advancesTo CacheEntry_PREPARE) ?c c1"
          by blast
        have keys1: "map fst c1 = map fst ?c"
          using adv1 by (rule list_all2_advancesTo_keys)
        have "preparedFor b (ramcloud t) (map fst ?c) (Suc ?k) (fst opened) (fst ?a)"
          using op lt ok by (intro preparedFor_appendOp) (simp_all add: session'_def key_def)
        then have pre: "\<And>s r. Some (fst opened, fst ?a) = Some (s, r) \<Longrightarrow>
            preparedFor b (ramcloud ((snd ?a)\<lparr>nextCacheEntry := ?k + 1\<rparr>))
              (map fst (commitCache ((snd ?a)\<lparr>nextCacheEntry := ?k + 1\<rparr>)))
              (nextCacheEntry ((snd ?a)\<lparr>nextCacheEntry := ?k + 1\<rparr>)) s r"
          by (auto simp add: a keys1)
        from "1.IH"(2)[OF lt np key_def opened_def session'_def ok pre] "1.prems"(2)
        show ?thesis
          unfolding eq by (simp add: a keys1)
      qed
    qed
  qed
qed


lemma decisionRpcReady_cases:
  "decisionRpcReady rpc t = Inr t \<or>
   (decisionRpcReady rpc t = Inl (responseStatus rpc, t) \<and>
    responseStatus rpc \<noteq> STATUS_OK \<and> responseStatus rpc \<noteq> STATUS_UNKNOWN_TABLET)"
  by (simp add: decisionRpcReady_def)

lemma processDecisionLoop_shape:
  "\<exists>rs. taskOf (processDecisionLoop b it t) = t\<lparr>decisionRpcs := rs\<rparr>"
proof (induction b it t rule: processDecisionLoop.induct)
  case (1 b it t)
  show ?case
  proof (cases "it < length (decisionRpcs t)")
    case False
    then have "processDecisionLoop b it t = Inr t"
      by (subst processDecisionLoop.simps) simp
    then have "taskOf (processDecisionLoop b it t) = t\<lparr>decisionRpcs := decisionRpcs t\<rparr>"
      by simp
    then show ?thesis by blast
  next
    case lt: True
    show ?thesis
    proof (cases "isReady (decisionRpcs t ! it)")
      case False
      then have "processDecisionLoop b it t =
          processDecisionLoop b (increment b (length (decisionRpcs t)) it) t"
        using lt by (subst processDecisionLoop.simps) simp
      with "1.IH"(1)[OF lt False] show ?thesis by simp
    next
      case ready: True
      let ?rpc = "decisionRpcs t ! it"
      from decisionRpcReady_cases[of ?rpc t] show ?thesis
      proof (elim disjE conjE)
        assume r: "decisionRpcReady ?rpc t = Inr t"
        have eq: "processDecisionLoop b it t =
            processDecisionLoop b (increment b (length (eraseAt it (decisionRpcs t))) it)
              (t\<lparr>decisionRpcs := eraseAt it (decisionRpcs t)\<rparr>)"
          using lt ready r by (subst processDecisionLoop.simps) simp
        from "1.IH"(2)[OF lt _ r] ready
        obtain rs where "taskOf (processDecisionLoop b
              (increment b (length (eraseAt it (decisionRpcs t))) it)
              (t\<lparr>decisionRpcs := eraseAt it (decisionRpcs t)\<rparr>)) =
              t\<lparr>decisionRpcs := eraseAt it (decisionRpcs t)\<rparr>\<lparr>decisionRpcs := rs\<rparr>"
          by auto
        then show ?thesis unfolding eq by auto
      next
        assume r: "decisionRpcReady ?rpc t = Inl (responseStatus ?rpc, t)"
        have "processDecisionLoop b it t = Inl (responseStatus ?rpc, t)"
          using lt ready r by (subst processDecisionLoop.simps) simp
        then have "taskOf (processDecisionLoop b it t) = t\<lparr>decisionRpcs := decisionRpcs t\<rparr>"
          by simp
        then show ?thesis by blast
      qed
    qed
  qed
qed

lemma processDecisionLoop_throw:
  "processDecisionLoop b it t = Inl (e, t') \<Longrightarrow>
     e \<noteq> STATUS_OK \<and> e \<noteq> STATUS_UNKNOWN_TABLET \<and> decisionRpcs t' \<noteq> []"
proof (induction b it t rule: processDecisionLoop.induct)
  case (1 b it t)
  from "1.prems" have lt: "it < length (decisionRpcs t)"
    by (subst (asm) processDecisionLoop.simps) (simp split: if_splits)
  show ?case
  proof (cases "isReady (decisionRpcs t ! it)")
    case False
    then have "processDecisionLoop b it t =
        processDecisionLoop b (increment b (length (decisionRpcs t)) it) t"
      using lt by (subst processDecisionLoop.simps) simp
    with "1.IH"(1)[OF lt False] "1.prems" show ?thesis by simp
  next
    case ready: True
    let ?rpc = "decisionRpcs t ! it"
    from decisionRpcReady_cases[of ?rpc t] show ?thesis
    proof (elim disjE conjE)
      assume r: "decisionRpcReady ?rpc t = Inr t"
      have eq: "processDecisionLoop b it t =
          processDecisionLoop b (increment b (length (eraseAt it (decisionRpcs t))) it)
            (t\<lparr>decisionRpcs := eraseAt it (decisionRpcs t)\<rparr>)"
        using lt ready r by (subst processDecisionLoop.simps) simp
      from "1.IH"(2)[OF lt _ r] ready "1.prems" show ?thesis unfolding eq by simp
    next
      assume r: "decisionRpcReady ?rpc t = Inl (responseStatus ?rpc, t)"
        and ne: "responseStatus ?rpc \<noteq> STATUS_OK" "responseStatus ?rpc \<noteq> STATUS_UNKNOWN_TABLET"
      have "processDecisionLoop b it t = Inl (responseStatus ?rpc, t)"
        using lt ready r by (subst processDecisionLoop.simps) simp
      with "1.prems" ne lt show ?thesis by auto
    qed
  qed
qed

lemma DecisionRpc_appendOp_shape:
  assumes "k < length (commitCache t)"
      "entryState (snd (commitCache t ! k)) \<noteq> CacheEntry_DECIDE"
  shows "\<exists>c. snd (DecisionRpc_appendOp k r t) = t\<lparr>commitCache := c\<rparr>
     \<and> list_all2 (advancesTo CacheEntry_DECIDE) (commitCache t) c"
proof -
  have "snd (DecisionRpc_appendOp k r t) =
      t\<lparr>commitCache := (commitCache t)[k := (fst (commitCache t ! k),
           (snd (commitCache t ! k))\<lparr>entryState := CacheEntry_DECIDE\<rparr>)]\<rparr>"
    by (simp add: DecisionRpc_appendOp_def Let_def)
  with list_all2_advancesTo_update[OF assms] show ?thesis by blast
qed

definition decidedFor ::
    "Build \<Rightarrow> RamCloud \<Rightarrow> CacheKey list \<Rightarrow> nat \<Rightarrow> Session \<Rightarrow> DecisionRpc \<Rightarrow> bool" where
  "decidedFor b rc keys k s r =
     (session r = Some s \<and> rpcState r = NOT_STARTED
      \<and> d_participantCount r \<le> DecisionRpc_MAX_OBJECTS_PER_RPC b
      \<and> unat (d_participantCount r) = length (d_ops r)
      \<and> distinct (d_ops r)
      \<and> (\<forall>i \<in> set (d_ops r). i < k \<and> i < length keys
            \<and> serviceLocator (lookup rc (tableId (keys ! i)) (keyHash (keys ! i)))
                = serviceLocator s))"

lemma decidedFor_mono:
  "decidedFor b rc keys k s r \<Longrightarrow> k \<le> k' \<Longrightarrow> decidedFor b rc keys k' s r"
  by (auto simp: decidedFor_def)

lemma decidedFor_new:
  "decidedFor b rc keys k s (DecisionRpc s t)"
  by (simp add: decidedFor_def DecisionRpc_def)

lemma decidedFor_appendOp:
  assumes p: "decidedFor b (ramcloud t) (map fst (commitCache t)) k s r"
    and k: "k < length (commitCache t)"
    and loc: "serviceLocator (lookup (ramcloud t) (tableId (fst (commitCache t ! k)))
                (keyHash (fst (commitCache t ! k)))) = serviceLocator s"
    and room: "d_participantCount r < DecisionRpc_MAX_OBJECTS_PER_RPC b"
  shows "decidedFor b (ramcloud t) (map fst (commitCache t)) (Suc k) s
           (fst (DecisionRpc_appendOp k r t))"
proof -
  have eq: "fst (DecisionRpc_appendOp k r t) =
      r\<lparr>d_ops := d_ops r @ [k], d_participantCount := d_participantCount r + 1\<rparr>"
    by (simp add: DecisionRpc_appendOp_def Let_def)
  show ?thesis
    unfolding eq using p k loc word_inc_unat[OF room]
    by (auto simp: decidedFor_def less_Suc_eq)
qed
lemma sendDecisionLoop_shape:
  "\<exists>c n. snd (sendDecisionLoop b nr t) = t\<lparr>commitCache := c, nextCacheEntry := n\<rparr>
     \<and> list_all2 (advancesTo CacheEntry_DECIDE) (commitCache t) c
     \<and> (nextCacheEntry t \<le> length (commitCache t) \<longrightarrow> n \<le> length (commitCache t))"
proof (induction b nr t rule: sendDecisionLoop.induct)
  case (1 b nr t)
  let ?k = "nextCacheEntry t"
  let ?c = "commitCache t"
  have trivial: "t = t\<lparr>commitCache := ?c, nextCacheEntry := ?k\<rparr>" by simp
  show ?case
  proof (cases "?k < length ?c")
    case False
    then have "sendDecisionLoop b nr t = (nr, t)"
      by (subst sendDecisionLoop.simps) simp
    then show ?thesis
      using trivial list_all2_advancesTo_refl
      by (metis snd_conv)
  next
    case lt: True
    show ?thesis
    proof (cases "entryState (snd (?c ! ?k)) = CacheEntry_DECIDE")
      case True
      then have eq: "sendDecisionLoop b nr t = sendDecisionLoop b nr (t\<lparr>nextCacheEntry := ?k + 1\<rparr>)"
        using lt by (subst sendDecisionLoop.simps) simp
      from "1.IH"(1)[OF lt True] lt show ?thesis
        unfolding eq by auto
    next
      case np: False
      define key where "key = fst (?c ! ?k)"
      define opened where "opened = (case nr of
                            None \<Rightarrow>
                              (lookup (ramcloud t) (tableId key) (keyHash key),
                               DecisionRpc (lookup (ramcloud t) (tableId key) (keyHash key)) t)
                          | Some p \<Rightarrow> p)"
      define session' where "session' = lookup (ramcloud t) (tableId key) (keyHash key)"
      let ?a = "DecisionRpc_appendOp ?k (snd opened) t"
      have unf: "sendDecisionLoop b nr t =
          (if serviceLocator session' = serviceLocator (fst opened)
                  \<and> d_participantCount (snd opened) < DecisionRpc_MAX_OBJECTS_PER_RPC b
           then sendDecisionLoop b (Some (fst opened, fst ?a))
                  ((snd ?a)\<lparr>nextCacheEntry := ?k + 1\<rparr>)
           else (Some opened, t))"
        unfolding key_def opened_def session'_def using lt np
        by (subst sendDecisionLoop.simps) (simp add: Let_def)
      show ?thesis
      proof (cases "serviceLocator session' = serviceLocator (fst opened)
                  \<and> d_participantCount (snd opened) < DecisionRpc_MAX_OBJECTS_PER_RPC b")
        case no: False
        have "sendDecisionLoop b nr t = (Some opened, t)"
          unfolding unf by (rule if_not_P[OF no])
        then show ?thesis
          using trivial list_all2_advancesTo_refl lt
          by (metis snd_conv less_imp_le)
      next
        case ok: True
        have eq: "sendDecisionLoop b nr t =
            sendDecisionLoop b (Some (fst opened, fst ?a)) ((snd ?a)\<lparr>nextCacheEntry := ?k + 1\<rparr>)"
          unfolding unf by (rule if_P[OF ok])
        from DecisionRpc_appendOp_shape[OF lt np, of "snd opened"]
        obtain c1 where a: "snd ?a = t\<lparr>commitCache := c1\<rparr>"
          and adv1: "list_all2 (advancesTo CacheEntry_DECIDE) ?c c1"
          by blast
        have len1: "length c1 = length ?c"
          using adv1 by (simp add: list_all2_lengthD)
        from "1.IH"(2)[OF lt np key_def opened_def session'_def ok]
        obtain c2 n where r: "snd (sendDecisionLoop b (Some (fst opened, fst ?a))
              ((snd ?a)\<lparr>nextCacheEntry := ?k + 1\<rparr>)) =
            (snd ?a)\<lparr>nextCacheEntry := ?k + 1\<rparr>\<lparr>commitCache := c2, nextCacheEntry := n\<rparr>"
          and adv2: "list_all2 (advancesTo CacheEntry_DECIDE)
              (commitCache ((snd ?a)\<lparr>nextCacheEntry := ?k + 1\<rparr>)) c2"
          and n: "nextCacheEntry ((snd ?a)\<lparr>nextCacheEntry := ?k + 1\<rparr>)
                 \<le> length (commitCache ((snd ?a)\<lparr>nextCacheEntry := ?k + 1\<rparr>))
               \<longrightarrow> n \<le> length (commitCache ((snd ?a)\<lparr>nextCacheEntry := ?k + 1\<rparr>))"
          by blast
        have "snd (sendDecisionLoop b nr t) = t\<lparr>commitCache := c2, nextCacheEntry := n\<rparr>"
          unfolding eq r by (simp add: a)
        moreover have "list_all2 (advancesTo CacheEntry_DECIDE) ?c c2"
          using adv1 adv2 by (auto simp: a intro: list_all2_advancesTo_trans)
        moreover have "n \<le> length ?c"
          using n lt by (simp add: a len1)
        ultimately show ?thesis by blast
      qed
    qed
  qed
qed


lemma sendDecisionLoop_rpc:
  "(\<And>s r. nr = Some (s, r) \<Longrightarrow>
        decidedFor b (ramcloud t) (map fst (commitCache t)) (nextCacheEntry t) s r) \<Longrightarrow>
   fst (sendDecisionLoop b nr t) = Some (s', r') \<Longrightarrow>
   decidedFor b (ramcloud t) (map fst (commitCache t))
     (nextCacheEntry (snd (sendDecisionLoop b nr t))) s' r'"
proof (induction b nr t rule: sendDecisionLoop.induct)
  case (1 b nr t)
  let ?k = "nextCacheEntry t"
  let ?c = "commitCache t"
  show ?case
  proof (cases "?k < length ?c")
    case False
    then have "sendDecisionLoop b nr t = (nr, t)"
      by (subst sendDecisionLoop.simps) simp
    with "1.prems" show ?thesis by simp
  next
    case lt: True
    show ?thesis
    proof (cases "entryState (snd (?c ! ?k)) = CacheEntry_DECIDE")
      case True
      then have eq: "sendDecisionLoop b nr t = sendDecisionLoop b nr (t\<lparr>nextCacheEntry := ?k + 1\<rparr>)"
        using lt by (subst sendDecisionLoop.simps) simp
      have pre: "\<And>s r. nr = Some (s, r) \<Longrightarrow>
            decidedFor b (ramcloud (t\<lparr>nextCacheEntry := ?k + 1\<rparr>))
              (map fst (commitCache (t\<lparr>nextCacheEntry := ?k + 1\<rparr>)))
              (nextCacheEntry (t\<lparr>nextCacheEntry := ?k + 1\<rparr>)) s r"
        using "1.prems"(1) by (auto intro: decidedFor_mono)
      from "1.IH"(1)[OF lt True pre] "1.prems"(2) show ?thesis
        unfolding eq by simp
    next
      case np: False
      define key where "key = fst (?c ! ?k)"
      define opened where "opened = (case nr of
                            None \<Rightarrow>
                              (lookup (ramcloud t) (tableId key) (keyHash key),
                               DecisionRpc (lookup (ramcloud t) (tableId key) (keyHash key)) t)
                          | Some p \<Rightarrow> p)"
      define session' where "session' = lookup (ramcloud t) (tableId key) (keyHash key)"
      let ?a = "DecisionRpc_appendOp ?k (snd opened) t"
      have unf: "sendDecisionLoop b nr t =
          (if serviceLocator session' = serviceLocator (fst opened)
                  \<and> d_participantCount (snd opened) < DecisionRpc_MAX_OBJECTS_PER_RPC b
           then sendDecisionLoop b (Some (fst opened, fst ?a))
                  ((snd ?a)\<lparr>nextCacheEntry := ?k + 1\<rparr>)
           else (Some opened, t))"
        unfolding key_def opened_def session'_def using lt np
        by (subst sendDecisionLoop.simps) (simp add: Let_def)
      have op: "decidedFor b (ramcloud t) (map fst ?c) ?k (fst opened) (snd opened)"
        using "1.prems"(1)
        by (cases nr) (auto simp: opened_def decidedFor_new)
      show ?thesis
      proof (cases "serviceLocator session' = serviceLocator (fst opened)
                  \<and> d_participantCount (snd opened) < DecisionRpc_MAX_OBJECTS_PER_RPC b")
        case no: False
        have "sendDecisionLoop b nr t = (Some opened, t)"
          unfolding unf by (rule if_not_P[OF no])
        with op "1.prems"(2) show ?thesis by auto
      next
        case ok: True
        have eq: "sendDecisionLoop b nr t =
            sendDecisionLoop b (Some (fst opened, fst ?a)) ((snd ?a)\<lparr>nextCacheEntry := ?k + 1\<rparr>)"
          unfolding unf by (rule if_P[OF ok])
        from DecisionRpc_appendOp_shape[OF lt np, of "snd opened"]
        obtain c1 where a: "snd ?a = t\<lparr>commitCache := c1\<rparr>"
          and adv1: "list_all2 (advancesTo CacheEntry_DECIDE) ?c c1"
          by blast
        have keys1: "map fst c1 = map fst ?c"
          using adv1 by (rule list_all2_advancesTo_keys)
        have "decidedFor b (ramcloud t) (map fst ?c) (Suc ?k) (fst opened) (fst ?a)"
          using op lt ok by (intro decidedFor_appendOp) (simp_all add: session'_def key_def)
        then have pre: "\<And>s r. Some (fst opened, fst ?a) = Some (s, r) \<Longrightarrow>
            decidedFor b (ramcloud ((snd ?a)\<lparr>nextCacheEntry := ?k + 1\<rparr>))
              (map fst (commitCache ((snd ?a)\<lparr>nextCacheEntry := ?k + 1\<rparr>)))
              (nextCacheEntry ((snd ?a)\<lparr>nextCacheEntry := ?k + 1\<rparr>)) s r"
          by (auto simp add: a keys1)
        from "1.IH"(2)[OF lt np key_def opened_def session'_def ok pre] "1.prems"(2)
        show ?thesis
          unfolding eq by (simp add: a keys1)
      qed
    qed
  qed
qed


section \<open>What is sent\<close>

lemma sendPrepareRpc_shape:
  "\<exists>c n rs l. sendPrepareRpc b t =
       t\<lparr>commitCache := c, nextCacheEntry := n, prepareRpcs := prepareRpcs t @ rs,
          ramcloud := (ramcloud t)\<lparr>sendRequestCalls := sendRequestCalls (ramcloud t) @ l\<rparr>\<rparr>
     \<and> list_all2 (advancesTo CacheEntry_PREPARE) (commitCache t) c
     \<and> (nextCacheEntry t \<le> length (commitCache t) \<longrightarrow> n \<le> length (commitCache t))"
proof -
  from sendPrepareLoop_shape[of b None t]
  obtain c n where sh: "snd (sendPrepareLoop b None t) = t\<lparr>commitCache := c, nextCacheEntry := n\<rparr>"
    and adv: "list_all2 (advancesTo CacheEntry_PREPARE) (commitCache t) c"
    and n: "nextCacheEntry t \<le> length (commitCache t) \<longrightarrow> n \<le> length (commitCache t)"
    by blast
  obtain nr t' where res: "sendPrepareLoop b None t = (nr, t')"
    by (cases "sendPrepareLoop b None t")
  with sh have t': "t' = t\<lparr>commitCache := c, nextCacheEntry := n\<rparr>"
    by simp
  show ?thesis
  proof (cases nr)
    case None
    then have "sendPrepareRpc b t = t\<lparr>commitCache := c, nextCacheEntry := n\<rparr>"
      by (simp add: sendPrepareRpc_def res t')
    then have "sendPrepareRpc b t =
       t\<lparr>commitCache := c, nextCacheEntry := n, prepareRpcs := prepareRpcs t @ [],
          ramcloud := (ramcloud t)\<lparr>sendRequestCalls := sendRequestCalls (ramcloud t) @ []\<rparr>\<rparr>"
      by simp
    with adv n show ?thesis by blast
  next
    case (Some p)
    obtain s r where p: "p = (s, r)" by (cases p)
    have eq: "sendPrepareRpc b t = PrepareRpc_send r (t\<lparr>commitCache := c, nextCacheEntry := n\<rparr>)"
      using Some p by (simp add: sendPrepareRpc_def res t')
    show ?thesis
    proof (cases "session r")
      case None
      then have "sendPrepareRpc b t =
         t\<lparr>commitCache := c, nextCacheEntry := n,
            prepareRpcs := prepareRpcs t @
              [r\<lparr>p_ackId := trackerAckId (ramcloud t), rpcState := IN_PROGRESS\<rparr>],
            ramcloud := (ramcloud t)\<lparr>sendRequestCalls := sendRequestCalls (ramcloud t) @ []\<rparr>\<rparr>"
        unfolding eq by (simp add: PrepareRpc_send_def Let_def)
      with adv n show ?thesis by blast
    next
      case (Some s')
      then have "sendPrepareRpc b t =
         t\<lparr>commitCache := c, nextCacheEntry := n,
            prepareRpcs := prepareRpcs t @
              [r\<lparr>p_ackId := trackerAckId (ramcloud t), rpcState := IN_PROGRESS\<rparr>],
            ramcloud := (ramcloud t)\<lparr>sendRequestCalls :=
               sendRequestCalls (ramcloud t) @ [serviceLocator s']\<rparr>\<rparr>"
        unfolding eq by (simp add: PrepareRpc_send_def Let_def sendRequest_def)
      with adv n show ?thesis by blast
    qed
  qed
qed

lemma sendPrepareRpc_sent:
  "(prepareRpcs (sendPrepareRpc b t) = prepareRpcs t
      \<and> sendRequestCalls (ramcloud (sendPrepareRpc b t)) = sendRequestCalls (ramcloud t))
   \<or> (\<exists>r s. prepareRpcs (sendPrepareRpc b t) = prepareRpcs t @ [r]
        \<and> sendRequestCalls (ramcloud (sendPrepareRpc b t))
            = sendRequestCalls (ramcloud t) @ [serviceLocator s]
        \<and> session r = Some s \<and> rpcState r = IN_PROGRESS
        \<and> p_opCount r \<le> PrepareRpc_MAX_OBJECTS_PER_RPC b
        \<and> unat (p_opCount r) = length (p_ops r)
        \<and> distinct (p_ops r)
        \<and> (\<forall>i \<in> set (p_ops r). i < length (commitCache t)
              \<and> serviceLocator (lookup (ramcloud t) (tableId (fst (commitCache t ! i)))
                                   (keyHash (fst (commitCache t ! i))))
                  = serviceLocator s))"
proof -
  from sendPrepareLoop_shape[of b None t]
  obtain c n where sh: "snd (sendPrepareLoop b None t) = t\<lparr>commitCache := c, nextCacheEntry := n\<rparr>"
    by blast
  obtain nr t' where res: "sendPrepareLoop b None t = (nr, t')"
    by (cases "sendPrepareLoop b None t")
  with sh have t': "t' = t\<lparr>commitCache := c, nextCacheEntry := n\<rparr>"
    by simp
  show ?thesis
  proof (cases nr)
    case None
    then have "sendPrepareRpc b t = t\<lparr>commitCache := c, nextCacheEntry := n\<rparr>"
      by (simp add: sendPrepareRpc_def res t')
    then show ?thesis by simp
  next
    case (Some p)
    obtain s r where p: "p = (s, r)" by (cases p)
    have eq: "sendPrepareRpc b t = PrepareRpc_send r (t\<lparr>commitCache := c, nextCacheEntry := n\<rparr>)"
      using Some p by (simp add: sendPrepareRpc_def res t')
    have "preparedFor b (ramcloud t) (map fst (commitCache t))
        (nextCacheEntry (snd (sendPrepareLoop b None t))) s r"
      using Some p by (intro sendPrepareLoop_rpc) (simp_all add: res)
    then have pf: "session r = Some s" "p_opCount r \<le> PrepareRpc_MAX_OBJECTS_PER_RPC b"
        "unat (p_opCount r) = length (p_ops r)" "distinct (p_ops r)"
        "\<forall>i \<in> set (p_ops r). i < length (commitCache t)
              \<and> serviceLocator (lookup (ramcloud t) (tableId (fst (commitCache t ! i)))
                                   (keyHash (fst (commitCache t ! i))))
                  = serviceLocator s"
      by (auto simp: preparedFor_def)
    let ?r = "r\<lparr>p_ackId := trackerAckId (ramcloud t), rpcState := IN_PROGRESS\<rparr>"
    have "prepareRpcs (sendPrepareRpc b t) = prepareRpcs t @ [?r]"
        "sendRequestCalls (ramcloud (sendPrepareRpc b t))
            = sendRequestCalls (ramcloud t) @ [serviceLocator s]"
      unfolding eq using pf(1) by (simp_all add: PrepareRpc_send_def Let_def sendRequest_def)
    moreover have "session ?r = Some s" "rpcState ?r = IN_PROGRESS"
        "p_opCount ?r \<le> PrepareRpc_MAX_OBJECTS_PER_RPC b"
        "unat (p_opCount ?r) = length (p_ops ?r)" "distinct (p_ops ?r)"
        "\<forall>i \<in> set (p_ops ?r). i < length (commitCache t)
              \<and> serviceLocator (lookup (ramcloud t) (tableId (fst (commitCache t ! i)))
                                   (keyHash (fst (commitCache t ! i))))
                  = serviceLocator s"
      using pf by simp_all
    ultimately show ?thesis by blast
  qed
qed

lemma sendDecisionRpc_shape:
  "\<exists>c n rs l. sendDecisionRpc b t =
       t\<lparr>commitCache := c, nextCacheEntry := n, decisionRpcs := decisionRpcs t @ rs,
          ramcloud := (ramcloud t)\<lparr>sendRequestCalls := sendRequestCalls (ramcloud t) @ l\<rparr>\<rparr>
     \<and> list_all2 (advancesTo CacheEntry_DECIDE) (commitCache t) c
     \<and> (nextCacheEntry t \<le> length (commitCache t) \<longrightarrow> n \<le> length (commitCache t))"
proof -
  from sendDecisionLoop_shape[of b None t]
  obtain c n where sh: "snd (sendDecisionLoop b None t) = t\<lparr>commitCache := c, nextCacheEntry := n\<rparr>"
    and adv: "list_all2 (advancesTo CacheEntry_DECIDE) (commitCache t) c"
    and n: "nextCacheEntry t \<le> length (commitCache t) \<longrightarrow> n \<le> length (commitCache t)"
    by blast
  obtain nr t' where res: "sendDecisionLoop b None t = (nr, t')"
    by (cases "sendDecisionLoop b None t")
  with sh have t': "t' = t\<lparr>commitCache := c, nextCacheEntry := n\<rparr>"
    by simp
  show ?thesis
  proof (cases nr)
    case None
    then have "sendDecisionRpc b t = t\<lparr>commitCache := c, nextCacheEntry := n\<rparr>"
      by (simp add: sendDecisionRpc_def res t')
    then have "sendDecisionRpc b t =
       t\<lparr>commitCache := c, nextCacheEntry := n, decisionRpcs := decisionRpcs t @ [],
          ramcloud := (ramcloud t)\<lparr>sendRequestCalls := sendRequestCalls (ramcloud t) @ []\<rparr>\<rparr>"
      by simp
    with adv n show ?thesis by blast
  next
    case (Some p)
    obtain s r where p: "p = (s, r)" by (cases p)
    have eq: "sendDecisionRpc b t = DecisionRpc_send r (t\<lparr>commitCache := c, nextCacheEntry := n\<rparr>)"
      using Some p by (simp add: sendDecisionRpc_def res t')
    show ?thesis
    proof (cases "session r")
      case None
      then have "sendDecisionRpc b t =
         t\<lparr>commitCache := c, nextCacheEntry := n,
            decisionRpcs := decisionRpcs t @
              [r\<lparr>rpcState := IN_PROGRESS\<rparr>],
            ramcloud := (ramcloud t)\<lparr>sendRequestCalls := sendRequestCalls (ramcloud t) @ []\<rparr>\<rparr>"
        unfolding eq by (simp add: DecisionRpc_send_def Let_def)
      with adv n show ?thesis by blast
    next
      case (Some s')
      then have "sendDecisionRpc b t =
         t\<lparr>commitCache := c, nextCacheEntry := n,
            decisionRpcs := decisionRpcs t @
              [r\<lparr>rpcState := IN_PROGRESS\<rparr>],
            ramcloud := (ramcloud t)\<lparr>sendRequestCalls :=
               sendRequestCalls (ramcloud t) @ [serviceLocator s']\<rparr>\<rparr>"
        unfolding eq by (simp add: DecisionRpc_send_def Let_def sendRequest_def)
      with adv n show ?thesis by blast
    qed
  qed
qed

lemma sendDecisionRpc_sent:
  "(decisionRpcs (sendDecisionRpc b t) = decisionRpcs t
      \<and> sendRequestCalls (ramcloud (sendDecisionRpc b t)) = sendRequestCalls (ramcloud t))
   \<or> (\<exists>r s. decisionRpcs (sendDecisionRpc b t) = decisionRpcs t @ [r]
        \<and> sendRequestCalls (ramcloud (sendDecisionRpc b t))
            = sendRequestCalls (ramcloud t) @ [serviceLocator s]
        \<and> session r = Some s \<and> rpcState r = IN_PROGRESS
        \<and> d_participantCount r \<le> DecisionRpc_MAX_OBJECTS_PER_RPC b
        \<and> unat (d_participantCount r) = length (d_ops r)
        \<and> distinct (d_ops r)
        \<and> (\<forall>i \<in> set (d_ops r). i < length (commitCache t)
              \<and> serviceLocator (lookup (ramcloud t) (tableId (fst (commitCache t ! i)))
                                   (keyHash (fst (commitCache t ! i))))
                  = serviceLocator s))"
proof -
  from sendDecisionLoop_shape[of b None t]
  obtain c n where sh: "snd (sendDecisionLoop b None t) = t\<lparr>commitCache := c, nextCacheEntry := n\<rparr>"
    by blast
  obtain nr t' where res: "sendDecisionLoop b None t = (nr, t')"
    by (cases "sendDecisionLoop b None t")
  with sh have t': "t' = t\<lparr>commitCache := c, nextCacheEntry := n\<rparr>"
    by simp
  show ?thesis
  proof (cases nr)
    case None
    then have "sendDecisionRpc b t = t\<lparr>commitCache := c, nextCacheEntry := n\<rparr>"
      by (simp add: sendDecisionRpc_def res t')
    then show ?thesis by simp
  next
    case (Some p)
    obtain s r where p: "p = (s, r)" by (cases p)
    have eq: "sendDecisionRpc b t = DecisionRpc_send r (t\<lparr>commitCache := c, nextCacheEntry := n\<rparr>)"
      using Some p by (simp add: sendDecisionRpc_def res t')
    have "decidedFor b (ramcloud t) (map fst (commitCache t))
        (nextCacheEntry (snd (sendDecisionLoop b None t))) s r"
      using Some p by (intro sendDecisionLoop_rpc) (simp_all add: res)
    then have pf: "session r = Some s" "d_participantCount r \<le> DecisionRpc_MAX_OBJECTS_PER_RPC b"
        "unat (d_participantCount r) = length (d_ops r)" "distinct (d_ops r)"
        "\<forall>i \<in> set (d_ops r). i < length (commitCache t)
              \<and> serviceLocator (lookup (ramcloud t) (tableId (fst (commitCache t ! i)))
                                   (keyHash (fst (commitCache t ! i))))
                  = serviceLocator s"
      by (auto simp: decidedFor_def)
    let ?r = "r\<lparr>rpcState := IN_PROGRESS\<rparr>"
    have "decisionRpcs (sendDecisionRpc b t) = decisionRpcs t @ [?r]"
        "sendRequestCalls (ramcloud (sendDecisionRpc b t))
            = sendRequestCalls (ramcloud t) @ [serviceLocator s]"
      unfolding eq using pf(1) by (simp_all add: DecisionRpc_send_def Let_def sendRequest_def)
    moreover have "session ?r = Some s" "rpcState ?r = IN_PROGRESS"
        "d_participantCount ?r \<le> DecisionRpc_MAX_OBJECTS_PER_RPC b"
        "unat (d_participantCount ?r) = length (d_ops ?r)" "distinct (d_ops ?r)"
        "\<forall>i \<in> set (d_ops ?r). i < length (commitCache t)
              \<and> serviceLocator (lookup (ramcloud t) (tableId (fst (commitCache t ! i)))
                                   (keyHash (fst (commitCache t ! i))))
                  = serviceLocator s"
      using pf by simp_all
    ultimately show ?thesis by blast
  qed
qed


text \<open>
  C5. What \<^verbatim>\<open>sendPrepareRpc\<close> and \<^verbatim>\<open>sendDecisionRpc\<close> send. A call either sends nothing,
  or sends exactly one new RPC, which it appends to the pipeline. That RPC carries at most
  \<^verbatim>\<open>MAX_OBJECTS_PER_RPC\<close> entries, its count is the number of entries in its \<^verbatim>\<open>ops\<close>,
  and for each of these entries the object finder's lookup returns a session with the
  service locator of the session the RPC was opened on and is sent on.
\<close>

theorem rpc_at_send:
  "((prepareRpcs (sendPrepareRpc b t) = prepareRpcs t
      \<and> sendRequestCalls (ramcloud (sendPrepareRpc b t)) = sendRequestCalls (ramcloud t))
    \<or> (\<exists>r s. prepareRpcs (sendPrepareRpc b t) = prepareRpcs t @ [r]
        \<and> sendRequestCalls (ramcloud (sendPrepareRpc b t))
            = sendRequestCalls (ramcloud t) @ [serviceLocator s]
        \<and> session r = Some s \<and> rpcState r = IN_PROGRESS
        \<and> p_opCount r \<le> PrepareRpc_MAX_OBJECTS_PER_RPC b
        \<and> unat (p_opCount r) = length (p_ops r)
        \<and> distinct (p_ops r)
        \<and> (\<forall>i \<in> set (p_ops r). i < length (commitCache t)
              \<and> serviceLocator (lookup (ramcloud t) (tableId (fst (commitCache t ! i)))
                                   (keyHash (fst (commitCache t ! i))))
                  = serviceLocator s)))
   \<and> ((decisionRpcs (sendDecisionRpc b t) = decisionRpcs t
      \<and> sendRequestCalls (ramcloud (sendDecisionRpc b t)) = sendRequestCalls (ramcloud t))
    \<or> (\<exists>r s. decisionRpcs (sendDecisionRpc b t) = decisionRpcs t @ [r]
        \<and> sendRequestCalls (ramcloud (sendDecisionRpc b t))
            = sendRequestCalls (ramcloud t) @ [serviceLocator s]
        \<and> session r = Some s \<and> rpcState r = IN_PROGRESS
        \<and> d_participantCount r \<le> DecisionRpc_MAX_OBJECTS_PER_RPC b
        \<and> unat (d_participantCount r) = length (d_ops r)
        \<and> distinct (d_ops r)
        \<and> (\<forall>i \<in> set (d_ops r). i < length (commitCache t)
              \<and> serviceLocator (lookup (ramcloud t) (tableId (fst (commitCache t ! i)))
                                   (keyHash (fst (commitCache t ! i))))
                  = serviceLocator s)))"
  using sendPrepareRpc_sent[of b t] sendDecisionRpc_sent[of b t] by (rule conjI)

theorem rpc_at_send_witness:
  "p_ops (last (prepareRpcs (sendPrepareRpc exampleBuild threeStaged))) = [0, 1]
   \<and> unat (p_opCount (last (prepareRpcs (sendPrepareRpc exampleBuild threeStaged)))) = 2
   \<and> PrepareRpc_MAX_OBJECTS_PER_RPC exampleBuild = 2
   \<and> session (last (prepareRpcs (sendPrepareRpc exampleBuild threeStaged)))
       = Some \<lparr>serviceLocator = ''m1''\<rparr>
   \<and> serviceLocator (lookup (ramcloud threeStaged) (tableId (fst (commitCache threeStaged ! 1)))
         (keyHash (fst (commitCache threeStaged ! 1)))) = ''m1''
   \<and> sendRequestCalls (ramcloud (sendPrepareRpc exampleBuild threeStaged)) = [''m1'']
   \<and> d_ops (last (decisionRpcs (sendDecisionRpc exampleBuild threeStaged))) = [0, 1]"
proof -
  have a: "p_ops (last (prepareRpcs (sendPrepareRpc exampleBuild threeStaged))) = [0, 1]"
    by code_simp
  have b: "unat (p_opCount (last (prepareRpcs (sendPrepareRpc exampleBuild threeStaged)))) = 2"
    by code_simp
  have c: "PrepareRpc_MAX_OBJECTS_PER_RPC exampleBuild = 2"
    by (simp add: exampleBuild_def)
  have d: "session (last (prepareRpcs (sendPrepareRpc exampleBuild threeStaged)))
       = Some \<lparr>serviceLocator = ''m1''\<rparr>"
    by code_simp
  have e: "serviceLocator (lookup (ramcloud threeStaged) (tableId (fst (commitCache threeStaged ! 1)))
         (keyHash (fst (commitCache threeStaged ! 1)))) = ''m1''"
    by code_simp
  have f: "sendRequestCalls (ramcloud (sendPrepareRpc exampleBuild threeStaged)) = [''m1'']"
    by code_simp
  have g: "d_ops (last (decisionRpcs (sendDecisionRpc exampleBuild threeStaged))) = [0, 1]"
    by code_simp
  from rpc_at_send[of exampleBuild threeStaged] a b c d e f g show ?thesis
    by simp
qed


section \<open>The retry path\<close>

lemma retryLoop_shape:
  "\<exists>c fl. retryLoop slots t =
       t\<lparr>ramcloud := (ramcloud t)\<lparr>flushCalls := flushCalls (ramcloud t) @ fl\<rparr>,
          commitCache := c\<rparr>
     \<and> length c = length (commitCache t)"
proof (induction slots arbitrary: t)
  case Nil
  have "retryLoop [] t =
       t\<lparr>ramcloud := (ramcloud t)\<lparr>flushCalls := flushCalls (ramcloud t) @ []\<rparr>,
          commitCache := commitCache t\<rparr>"
    by simp
  then show ?case by blast
next
  case (Cons i slots)
  let ?t1 = "t\<lparr>ramcloud := flush (tableId (fst (commitCache t ! i))) (ramcloud t),
          commitCache :=
            (commitCache t)[i := (fst (commitCache t ! i),
                                  (snd (commitCache t ! i))\<lparr>entryState := CacheEntry_PENDING\<rparr>)]\<rparr>"
  from Cons.IH[of ?t1] obtain c fl where
    r: "retryLoop slots ?t1 =
       ?t1\<lparr>ramcloud := (ramcloud ?t1)\<lparr>flushCalls := flushCalls (ramcloud ?t1) @ fl\<rparr>,
          commitCache := c\<rparr>" and len: "length c = length (commitCache ?t1)"
    by blast
  have "retryLoop (i # slots) t =
       t\<lparr>ramcloud := (ramcloud t)\<lparr>flushCalls :=
             flushCalls (ramcloud t) @ (tableId (fst (commitCache t ! i)) # fl)\<rparr>,
          commitCache := c\<rparr>"
    unfolding retryLoop.simps r by (simp add: flush_def)
  moreover have "length c = length (commitCache t)"
    using len by simp
  ultimately show ?case by blast
qed

lemma retryLoop_length [simp]:
  "length (commitCache (retryLoop slots t)) = length (commitCache t)"
  by (induction slots arbitrary: t) simp_all

lemma retryLoop_entry:
  "j < length (commitCache t) \<Longrightarrow>
   commitCache (retryLoop slots t) ! j =
     (if j \<in> set slots
      then (fst (commitCache t ! j), (snd (commitCache t ! j))\<lparr>entryState := CacheEntry_PENDING\<rparr>)
      else commitCache t ! j)"
proof (induction slots arbitrary: t)
  case Nil
  then show ?case by simp
next
  case (Cons i slots)
  then show ?case
    by (cases "i = j") (simp_all add: nth_list_update)
qed

lemma retryLoop_key:
  "fst (commitCache (retryLoop slots t) ! j) = fst (commitCache t ! j)"
proof (induction slots arbitrary: t)
  case Nil
  then show ?case by simp
next
  case (Cons i slots)
  have "fst ((commitCache t)[i := (fst (commitCache t ! i),
          (snd (commitCache t ! i))\<lparr>entryState := CacheEntry_PENDING\<rparr>)] ! j)
        = fst (commitCache t ! j)"
    by (cases "i < length (commitCache t)") (simp_all add: nth_list_update not_less list_update_beyond)
  with Cons.IH show ?case by simp
qed

lemma retryLoop_flushCalls:
  "flushCalls (ramcloud (retryLoop slots t)) =
     flushCalls (ramcloud t) @ map (\<lambda>i. tableId (fst (commitCache t ! i))) slots"
proof (induction slots arbitrary: t)
  case Nil
  then show ?case by simp
next
  case (Cons i slots)
  have keys: "\<And>k. fst ((commitCache t)[i := (fst (commitCache t ! i),
          (snd (commitCache t ! i))\<lparr>entryState := CacheEntry_PENDING\<rparr>)] ! k)
        = fst (commitCache t ! k)"
    by (cases "i < length (commitCache t)") (simp_all add: nth_list_update not_less list_update_beyond)
  show ?case
    by (simp add: Cons.IH flush_def keys)
qed


lemma PrepareRpc_handleTransportError_effect:
  assumes cnt: "unat (p_opCount rpc) = length (p_ops rpc)"
    and dist: "distinct (p_ops rpc)"
    and valid: "\<forall>i \<in> set (p_ops rpc). i < length (commitCache t)"
  shows "length (commitCache (snd (snd (PrepareRpc_handleTransportError rpc t))))
           = length (commitCache t)
     \<and> (\<forall>j < length (commitCache t).
           commitCache (snd (snd (PrepareRpc_handleTransportError rpc t))) ! j =
             (if j \<in> set (p_ops rpc)
              then (fst (commitCache t ! j),
                    (snd (commitCache t ! j))\<lparr>entryState := CacheEntry_PENDING\<rparr>)
              else commitCache t ! j))
     \<and> card {j. j < length (commitCache t) \<and> j \<in> set (p_ops rpc)} = unat (p_opCount rpc)
     \<and> flushCalls (ramcloud (snd (snd (PrepareRpc_handleTransportError rpc t))))
           = flushCalls (ramcloud t) @ map (\<lambda>i. tableId (fst (commitCache t ! i))) (p_ops rpc)
     \<and> nextCacheEntry (snd (snd (PrepareRpc_handleTransportError rpc t))) = 0
     \<and> fst (PrepareRpc_handleTransportError rpc t)"
proof -
  let ?t1 = "case session rpc of
               Some s \<Rightarrow> t\<lparr>ramcloud := flushSession (serviceLocator s) (ramcloud t)\<rparr>
             | None \<Rightarrow> t"
  have t1: "commitCache ?t1 = commitCache t" "flushCalls (ramcloud ?t1) = flushCalls (ramcloud t)"
    by (simp_all add: flushSession_def split: option.splits)
  have res: "snd (snd (PrepareRpc_handleTransportError rpc t)) =
      (retryLoop (p_ops rpc) ?t1)\<lparr>nextCacheEntry := 0\<rparr>"
    by (simp add: PrepareRpc_handleTransportError_def PrepareRpc_retryRequest_def Let_def cnt
          split: option.splits)
  have len: "length (commitCache (snd (snd (PrepareRpc_handleTransportError rpc t))))
           = length (commitCache t)"
    unfolding res by (simp add: t1)
  have ent: "\<forall>j < length (commitCache t).
           commitCache (snd (snd (PrepareRpc_handleTransportError rpc t))) ! j =
             (if j \<in> set (p_ops rpc)
              then (fst (commitCache t ! j),
                    (snd (commitCache t ! j))\<lparr>entryState := CacheEntry_PENDING\<rparr>)
              else commitCache t ! j)"
    unfolding res using retryLoop_entry[of _ ?t1 "p_ops rpc"] by (simp add: t1)
  have "{j. j < length (commitCache t) \<and> j \<in> set (p_ops rpc)} = set (p_ops rpc)"
    using valid by auto
  then have card: "card {j. j < length (commitCache t) \<and> j \<in> set (p_ops rpc)}
        = unat (p_opCount rpc)"
    using dist cnt by (simp add: distinct_card)
  have fl: "flushCalls (ramcloud (snd (snd (PrepareRpc_handleTransportError rpc t))))
           = flushCalls (ramcloud t) @ map (\<lambda>i. tableId (fst (commitCache t ! i))) (p_ops rpc)"
    unfolding res by (simp add: retryLoop_flushCalls t1)
  have cur: "nextCacheEntry (snd (snd (PrepareRpc_handleTransportError rpc t))) = 0"
    unfolding res by simp
  have ret: "fst (PrepareRpc_handleTransportError rpc t)"
    by (simp add: PrepareRpc_handleTransportError_def Let_def split: option.splits)
  from len ent card fl cur ret show ?thesis by blast
qed

lemma DecisionRpc_handleTransportError_effect:
  assumes cnt: "unat (d_participantCount rpc) = length (d_ops rpc)"
    and dist: "distinct (d_ops rpc)"
    and valid: "\<forall>i \<in> set (d_ops rpc). i < length (commitCache t)"
  shows "length (commitCache (snd (snd (DecisionRpc_handleTransportError rpc t))))
           = length (commitCache t)
     \<and> (\<forall>j < length (commitCache t).
           commitCache (snd (snd (DecisionRpc_handleTransportError rpc t))) ! j =
             (if j \<in> set (d_ops rpc)
              then (fst (commitCache t ! j),
                    (snd (commitCache t ! j))\<lparr>entryState := CacheEntry_PENDING\<rparr>)
              else commitCache t ! j))
     \<and> card {j. j < length (commitCache t) \<and> j \<in> set (d_ops rpc)} = unat (d_participantCount rpc)
     \<and> flushCalls (ramcloud (snd (snd (DecisionRpc_handleTransportError rpc t))))
           = flushCalls (ramcloud t) @ map (\<lambda>i. tableId (fst (commitCache t ! i))) (d_ops rpc)
     \<and> nextCacheEntry (snd (snd (DecisionRpc_handleTransportError rpc t))) = 0
     \<and> fst (DecisionRpc_handleTransportError rpc t)"
proof -
  let ?t1 = "case session rpc of
               Some s \<Rightarrow> t\<lparr>ramcloud := flushSession (serviceLocator s) (ramcloud t)\<rparr>
             | None \<Rightarrow> t"
  have t1: "commitCache ?t1 = commitCache t" "flushCalls (ramcloud ?t1) = flushCalls (ramcloud t)"
    by (simp_all add: flushSession_def split: option.splits)
  have res: "snd (snd (DecisionRpc_handleTransportError rpc t)) =
      (retryLoop (d_ops rpc) ?t1)\<lparr>nextCacheEntry := 0\<rparr>"
    by (simp add: DecisionRpc_handleTransportError_def DecisionRpc_retryRequest_def Let_def cnt
          split: option.splits)
  have len: "length (commitCache (snd (snd (DecisionRpc_handleTransportError rpc t))))
           = length (commitCache t)"
    unfolding res by (simp add: t1)
  have ent: "\<forall>j < length (commitCache t).
           commitCache (snd (snd (DecisionRpc_handleTransportError rpc t))) ! j =
             (if j \<in> set (d_ops rpc)
              then (fst (commitCache t ! j),
                    (snd (commitCache t ! j))\<lparr>entryState := CacheEntry_PENDING\<rparr>)
              else commitCache t ! j)"
    unfolding res using retryLoop_entry[of _ ?t1 "d_ops rpc"] by (simp add: t1)
  have "{j. j < length (commitCache t) \<and> j \<in> set (d_ops rpc)} = set (d_ops rpc)"
    using valid by auto
  then have card: "card {j. j < length (commitCache t) \<and> j \<in> set (d_ops rpc)}
        = unat (d_participantCount rpc)"
    using dist cnt by (simp add: distinct_card)
  have fl: "flushCalls (ramcloud (snd (snd (DecisionRpc_handleTransportError rpc t))))
           = flushCalls (ramcloud t) @ map (\<lambda>i. tableId (fst (commitCache t ! i))) (d_ops rpc)"
    unfolding res by (simp add: retryLoop_flushCalls t1)
  have cur: "nextCacheEntry (snd (snd (DecisionRpc_handleTransportError rpc t))) = 0"
    unfolding res by simp
  have ret: "fst (DecisionRpc_handleTransportError rpc t)"
    by (simp add: DecisionRpc_handleTransportError_def Let_def split: option.splits)
  from len ent card fl cur ret show ?thesis by blast
qed

text \<open>
  C6. Handling a transport error of an RPC that carries \<open>k\<close> participants (its count is
  the number of entries in \<^verbatim>\<open>ops\<close>, the entries are distinct positions of the cache, as
  for every RPC that was sent): the cache keeps its length and keys; exactly the \<open>k\<close>
  entries of the RPC have their state set to \<^verbatim>\<open>PENDING\<close> and nothing else changed, every
  other entry is unchanged; one \<^verbatim>\<open>flush\<close> of the table of each of the \<open>k\<close> entries is
  issued, in order; the cursor is back at the head of the cache. The same holds for a
  decision RPC.
\<close>

theorem transport_error_resets_participants:
  "(unat (p_opCount rpc) = length (p_ops rpc) \<and> distinct (p_ops rpc)
      \<and> (\<forall>i \<in> set (p_ops rpc). i < length (commitCache t))
    \<longrightarrow>
      length (commitCache (snd (snd (PrepareRpc_handleTransportError rpc t))))
           = length (commitCache t)
     \<and> (\<forall>j < length (commitCache t).
           commitCache (snd (snd (PrepareRpc_handleTransportError rpc t))) ! j =
             (if j \<in> set (p_ops rpc)
              then (fst (commitCache t ! j),
                    (snd (commitCache t ! j))\<lparr>entryState := CacheEntry_PENDING\<rparr>)
              else commitCache t ! j))
     \<and> card {j. j < length (commitCache t) \<and> j \<in> set (p_ops rpc)} = unat (p_opCount rpc)
     \<and> flushCalls (ramcloud (snd (snd (PrepareRpc_handleTransportError rpc t))))
           = flushCalls (ramcloud t) @ map (\<lambda>i. tableId (fst (commitCache t ! i))) (p_ops rpc)
     \<and> nextCacheEntry (snd (snd (PrepareRpc_handleTransportError rpc t))) = 0
     \<and> fst (PrepareRpc_handleTransportError rpc t))
   \<and> (unat (d_participantCount drpc) = length (d_ops drpc) \<and> distinct (d_ops drpc)
      \<and> (\<forall>i \<in> set (d_ops drpc). i < length (commitCache t))
    \<longrightarrow>
      length (commitCache (snd (snd (DecisionRpc_handleTransportError drpc t))))
           = length (commitCache t)
     \<and> (\<forall>j < length (commitCache t).
           commitCache (snd (snd (DecisionRpc_handleTransportError drpc t))) ! j =
             (if j \<in> set (d_ops drpc)
              then (fst (commitCache t ! j),
                    (snd (commitCache t ! j))\<lparr>entryState := CacheEntry_PENDING\<rparr>)
              else commitCache t ! j))
     \<and> card {j. j < length (commitCache t) \<and> j \<in> set (d_ops drpc)}
           = unat (d_participantCount drpc)
     \<and> flushCalls (ramcloud (snd (snd (DecisionRpc_handleTransportError drpc t))))
           = flushCalls (ramcloud t) @ map (\<lambda>i. tableId (fst (commitCache t ! i))) (d_ops drpc)
     \<and> nextCacheEntry (snd (snd (DecisionRpc_handleTransportError drpc t))) = 0
     \<and> fst (DecisionRpc_handleTransportError drpc t))"
  using PrepareRpc_handleTransportError_effect[of rpc t]
    DecisionRpc_handleTransportError_effect[of drpc t]
  by blast


theorem transport_error_resets_participants_witness:
  "p_ops (hd (prepareRpcs twoSent)) = [0, 1]
   \<and> unat (p_opCount (hd (prepareRpcs twoSent))) = 2
   \<and> length (commitCache twoSent) = 3
   \<and> map (\<lambda>e. entryState (snd e)) (commitCache twoSent)
       = [CacheEntry_PREPARE, CacheEntry_PREPARE, CacheEntry_PREPARE]
   \<and> map (\<lambda>e. entryState (snd e))
        (commitCache (snd (snd (PrepareRpc_handleTransportError (hd (prepareRpcs twoSent)) twoSent))))
       = [CacheEntry_PENDING, CacheEntry_PENDING, CacheEntry_PREPARE]
   \<and> nextCacheEntry (snd (snd (PrepareRpc_handleTransportError (hd (prepareRpcs twoSent)) twoSent)))
       = 0
   \<and> flushCalls (ramcloud
        (snd (snd (PrepareRpc_handleTransportError (hd (prepareRpcs twoSent)) twoSent))))
       = [1, 1]
   \<and> d_ops (DecisionRpc \<lparr>serviceLocator = ''m1''\<rparr> twoSent) = []
   \<and> nextCacheEntry (snd (snd (DecisionRpc_handleTransportError
         (DecisionRpc \<lparr>serviceLocator = ''m1''\<rparr> twoSent) twoSent))) = 0"
proof -
  let ?r = "hd (prepareRpcs twoSent)"
  let ?d = "DecisionRpc \<lparr>serviceLocator = ''m1''\<rparr> twoSent"
  have ops: "p_ops ?r = [0, 1]" by code_simp
  have cnt: "unat (p_opCount ?r) = 2" by code_simp
  have len: "length (commitCache twoSent) = 3" by code_simp
  have before: "map (\<lambda>e. entryState (snd e)) (commitCache twoSent)
       = [CacheEntry_PREPARE, CacheEntry_PREPARE, CacheEntry_PREPARE]"
    by code_simp
  have after: "map (\<lambda>e. entryState (snd e))
        (commitCache (snd (snd (PrepareRpc_handleTransportError ?r twoSent))))
       = [CacheEntry_PENDING, CacheEntry_PENDING, CacheEntry_PREPARE]"
    by code_simp
  have fl: "flushCalls (ramcloud (snd (snd (PrepareRpc_handleTransportError ?r twoSent))))
       = [1, 1]"
    by code_simp
  have dops: "d_ops ?d = []" "unat (d_participantCount ?d) = 0"
    by (simp_all add: DecisionRpc_def)
  have hp: "unat (p_opCount ?r) = length (p_ops ?r) \<and> distinct (p_ops ?r)
      \<and> (\<forall>i \<in> set (p_ops ?r). i < length (commitCache twoSent))"
    by (simp add: ops cnt len)
  have hd: "unat (d_participantCount ?d) = length (d_ops ?d) \<and> distinct (d_ops ?d)
      \<and> (\<forall>i \<in> set (d_ops ?d). i < length (commitCache twoSent))"
    by (simp add: dops)
  note th = transport_error_resets_participants[of ?r twoSent ?d]
  from th hp have "nextCacheEntry (snd (snd (PrepareRpc_handleTransportError ?r twoSent))) = 0"
    by blast
  moreover from th hd
  have "nextCacheEntry (snd (snd (DecisionRpc_handleTransportError ?d twoSent))) = 0"
    by blast
  ultimately show ?thesis
    using ops cnt len before after fl dops(1) by simp
qed


section \<open>An invariant of the phases\<close>

text \<open>
  The order \<^verbatim>\<open>PENDING\<close>, \<^verbatim>\<open>PREPARE\<close>, \<^verbatim>\<open>DECIDE\<close> of entry states, and what it means for one
  task to be no further back than another.
\<close>

fun entryRank :: "EntryState \<Rightarrow> nat" where
  "entryRank CacheEntry_PENDING = 0"
| "entryRank CacheEntry_PREPARE = 1"
| "entryRank CacheEntry_DECIDE = 2"

definition notBackwards :: "CacheKey \<times> CacheEntry \<Rightarrow> CacheKey \<times> CacheEntry \<Rightarrow> bool" where
  "notBackwards old new =
     (fst new = fst old \<and> entryRank (entryState (snd old)) \<le> entryRank (entryState (snd new)))"

definition advanced :: "Task \<Rightarrow> Task \<Rightarrow> bool" where
  "advanced t t' =
     (list_all2 notBackwards (commitCache t) (commitCache t')
      \<and> (decision t = TxDecision_ABORT \<longrightarrow> decision t' = TxDecision_ABORT))"

lemma notBackwards_refl [simp]: "notBackwards x x"
  by (simp add: notBackwards_def)

lemma list_all2_notBackwards_refl [simp]: "list_all2 notBackwards c c"
  by (simp add: list_all2_refl)

lemma list_all2_notBackwards_trans:
  "list_all2 notBackwards c c' \<Longrightarrow> list_all2 notBackwards c' c''
     \<Longrightarrow> list_all2 notBackwards c c''"
  by (rule list_all2_trans[where ?P1.0 = notBackwards and ?P2.0 = notBackwards])
     (auto simp: notBackwards_def)

lemma advanced_refl [simp]: "advanced t t"
  by (simp add: advanced_def)

lemma advanced_trans: "advanced t t' \<Longrightarrow> advanced t' t'' \<Longrightarrow> advanced t t''"
  by (auto simp: advanced_def intro: list_all2_notBackwards_trans)

lemma entryRank_le_2: "entryRank s \<le> 2"
  by (cases s) simp_all

lemma advancesTo_DECIDE_notBackwards:
  "list_all2 (advancesTo CacheEntry_DECIDE) c c' \<Longrightarrow> list_all2 notBackwards c c'"
  by (erule list_all2_mono) (auto simp: advancesTo_def notBackwards_def entryRank_le_2)

lemma advancesTo_PREPARE_notBackwards:
  assumes "list_all2 (advancesTo CacheEntry_PREPARE) c c'"
    and "list_all (\<lambda>e. entryState (snd e) \<noteq> CacheEntry_DECIDE) c"
  shows "list_all2 notBackwards c c'"
proof -
  have "\<forall>i < length c. notBackwards (c ! i) (c' ! i)"
  proof (intro allI impI)
    fix i assume i: "i < length c"
    then have a: "advancesTo CacheEntry_PREPARE (c ! i) (c' ! i)"
      using assms(1) by (simp add: list_all2_nthD)
    have nd: "entryState (snd (c ! i)) \<noteq> CacheEntry_DECIDE"
      using assms(2) i by (simp add: list_all_length)
    from a nd show "notBackwards (c ! i) (c' ! i)"
      by (cases "entryState (snd (c ! i))") (auto simp: advancesTo_def notBackwards_def)
  qed
  with assms(1) show ?thesis
    by (simp add: list_all2_conv_all_nth)
qed

lemma advancesTo_PREPARE_notDecided:
  assumes "list_all2 (advancesTo CacheEntry_PREPARE) c c'"
    and "list_all (\<lambda>e. entryState (snd e) \<noteq> CacheEntry_DECIDE) c"
  shows "list_all (\<lambda>e. entryState (snd e) \<noteq> CacheEntry_DECIDE) c'"
proof -
  have len: "length c' = length c"
    using assms(1) by (simp add: list_all2_lengthD)
  have "\<forall>i < length c'. entryState (snd (c' ! i)) \<noteq> CacheEntry_DECIDE"
  proof (intro allI impI)
    fix i assume i: "i < length c'"
    then have a: "advancesTo CacheEntry_PREPARE (c ! i) (c' ! i)"
      using assms(1) len by (simp add: list_all2_nthD)
    have nd: "entryState (snd (c ! i)) \<noteq> CacheEntry_DECIDE"
      using assms(2) i len by (simp add: list_all_length)
    from a nd show "entryState (snd (c' ! i)) \<noteq> CacheEntry_DECIDE"
      by (auto simp: advancesTo_def)
  qed
  then show ?thesis by (simp add: list_all_length)
qed

definition finish :: "(Status \<times> Task) + Task \<Rightarrow> Task" where
  "finish r = (case r of Inr t' \<Rightarrow> t' | Inl (e, t') \<Rightarrow> catchClientException e t')"

lemma finish_simps [simp]:
  "finish (Inr t) = t" "finish (Inl (e, t)) = catchClientException e t"
  by (simp_all add: finish_def)

lemma performTask_finish: "performTask b t = finish (performTaskTry b t)"
  by (simp add: performTask_def finish_def)

definition phaseInv :: "Task \<Rightarrow> bool" where
  "phaseInv t =
     ((state t = INIT \<longrightarrow>
         status t = STATUS_OK \<and> decision t = TxDecision_INVALID
         \<and> prepareRpcs t = [] \<and> decisionRpcs t = []
         \<and> participantList t = [] \<and> participantCount t = 0
         \<and> rpcFinishedCalls (ramcloud t) = [] \<and> sendRequestCalls (ramcloud t) = []
         \<and> list_all (\<lambda>e. entryState (snd e) = CacheEntry_PENDING) (commitCache t))
      \<and> (state t = PREPARE \<longrightarrow>
         status t = STATUS_OK \<and> decision t \<noteq> TxDecision_COMMIT \<and> decisionRpcs t = []
         \<and> rpcFinishedCalls (ramcloud t) = []
         \<and> list_all (\<lambda>e. entryState (snd e) \<noteq> CacheEntry_DECIDE) (commitCache t))
      \<and> (state t = DECISION \<longrightarrow>
         status t = STATUS_OK \<and> decision t \<noteq> TxDecision_INVALID
         \<and> rpcFinishedCalls (ramcloud t) = [])
      \<and> (state t = DONE \<longrightarrow>
         rpcFinishedCalls (ramcloud t) = [txId t]
         \<and> (status t = STATUS_OK \<longrightarrow> decision t \<noteq> TxDecision_INVALID)))"

lemma decisionBlock:
  assumes "state t = DECISION" "status t = STATUS_OK" "decision t \<noteq> TxDecision_INVALID"
    "rpcFinishedCalls (ramcloud t) = []"
  shows "phaseInv (finish (decisionStep b t)) \<and> advanced t (finish (decisionStep b t))"
proof (cases "processDecisionRpcs b t")
  case (Inl p)
  obtain e t1 where p: "p = (e, t1)" by (cases p)
  from processDecisionLoop_shape[of b 0 t] Inl p
  obtain rs where t1: "t1 = t\<lparr>decisionRpcs := rs\<rparr>"
    by (auto simp: processDecisionRpcs_def)
  from processDecisionLoop_throw[of b 0 t e t1] Inl p
  have e: "e \<noteq> STATUS_OK" by (simp add: processDecisionRpcs_def)
  have "finish (decisionStep b t) = catchClientException e t1"
    using Inl p by (simp add: decisionStep_def)
  then show ?thesis
    using assms e
    by (simp add: t1 catchClientException_def Let_def phaseInv_def rpcFinished_def advanced_def)
next
  case (Inr t1)
  from processDecisionLoop_shape[of b 0 t] Inr
  obtain rs where t1: "t1 = t\<lparr>decisionRpcs := rs\<rparr>"
    by (auto simp: processDecisionRpcs_def)
  from sendDecisionRpc_shape[of b t1]
  obtain c n rs' l where t2: "sendDecisionRpc b t1 =
       t1\<lparr>commitCache := c, nextCacheEntry := n, decisionRpcs := decisionRpcs t1 @ rs',
          ramcloud := (ramcloud t1)\<lparr>sendRequestCalls := sendRequestCalls (ramcloud t1) @ l\<rparr>\<rparr>"
    and adv: "list_all2 (advancesTo CacheEntry_DECIDE) (commitCache t1) c"
    by blast
  have nb: "list_all2 notBackwards (commitCache t) c"
    using adv by (simp add: t1 advancesTo_DECIDE_notBackwards)
  define t2 where "t2 = sendDecisionRpc b t1"
  have f: "state t2 = state t" "status t2 = status t" "decision t2 = decision t"
      "txId t2 = txId t" "rpcFinishedCalls (ramcloud t2) = rpcFinishedCalls (ramcloud t)"
      "commitCache t2 = c"
    unfolding t2_def t2 by (simp_all add: t1)
  have fin: "finish (decisionStep b t) =
      (if decisionRpcs t2 = [] \<and> nextCacheEntry t2 = length (commitCache t2)
       then t2\<lparr>ramcloud := rpcFinished (txId t2) (ramcloud t2), state := DONE\<rparr>
       else t2)"
    by (simp add: decisionStep_def Inr Let_def t2_def)
  show ?thesis
    unfolding fin using assms nb f
    by (simp add: phaseInv_def rpcFinished_def advanced_def)
qed


definition afterPrepare :: "Build \<Rightarrow> (Status \<times> Task) + Task \<Rightarrow> (Status \<times> Task) + Task" where
  "afterPrepare b r =
     (case r of
        Inl e \<Rightarrow> Inl e
      | Inr t2 \<Rightarrow> (if state t2 = DECISION then decisionStep b t2 else Inr t2))"

lemma prepareBlock:
  assumes st: "state t = PREPARE" and ok: "status t = STATUS_OK"
    and nc: "decision t \<noteq> TxDecision_COMMIT" and nd: "decisionRpcs t = []"
    and nf: "rpcFinishedCalls (ramcloud t) = []"
    and und: "list_all (\<lambda>e. entryState (snd e) \<noteq> CacheEntry_DECIDE) (commitCache t)"
  shows "phaseInv (finish (afterPrepare b (prepareStep b t)))
     \<and> advanced t (finish (afterPrepare b (prepareStep b t)))"
proof (cases "processPrepareRpcs b t")
  case (Inl p)
  obtain e t1 where p: "p = (e, t1)" by (cases p)
  from processPrepareLoop_shape[of b 0 t] Inl p
  obtain d rs where t1: "t1 = t\<lparr>decision := d, prepareRpcs := rs\<rparr>"
    and d: "d = decision t \<or> d = TxDecision_ABORT"
    by (auto simp: processPrepareRpcs_def)
  from processPrepareLoop_throw[of b 0 t e t1] Inl p
  have e: "e \<noteq> STATUS_OK" by (simp add: processPrepareRpcs_def)
  have "finish (afterPrepare b (prepareStep b t)) = catchClientException e t1"
    using Inl p by (simp add: prepareStep_def afterPrepare_def)
  then show ?thesis
    using st ok nf e d
    by (auto simp add: t1 catchClientException_def Let_def phaseInv_def rpcFinished_def
          advanced_def)
next
  case (Inr t1)
  from processPrepareLoop_shape[of b 0 t] Inr
  obtain d rs where t1: "t1 = t\<lparr>decision := d, prepareRpcs := rs\<rparr>"
    and d: "d = decision t \<or> d = TxDecision_ABORT"
    by (auto simp: processPrepareRpcs_def)
  from sendPrepareRpc_shape[of b t1]
  obtain c n rs' l where t2: "sendPrepareRpc b t1 =
       t1\<lparr>commitCache := c, nextCacheEntry := n, prepareRpcs := prepareRpcs t1 @ rs',
          ramcloud := (ramcloud t1)\<lparr>sendRequestCalls := sendRequestCalls (ramcloud t1) @ l\<rparr>\<rparr>"
    and adv: "list_all2 (advancesTo CacheEntry_PREPARE) (commitCache t1) c"
    by blast
  have adv': "list_all2 (advancesTo CacheEntry_PREPARE) (commitCache t) c"
    using adv by (simp add: t1)
  have nb: "list_all2 notBackwards (commitCache t) c"
    using adv' und by (rule advancesTo_PREPARE_notBackwards)
  have undc: "list_all (\<lambda>e. entryState (snd e) \<noteq> CacheEntry_DECIDE) c"
    using adv' und by (rule advancesTo_PREPARE_notDecided)
  define t2 where "t2 = sendPrepareRpc b t1"
  have f: "state t2 = PREPARE" "status t2 = STATUS_OK" "decision t2 = d"
      "txId t2 = txId t" "rpcFinishedCalls (ramcloud t2) = []"
      "commitCache t2 = c" "decisionRpcs t2 = []"
    unfolding t2_def t2 using st ok nd nf by (simp_all add: t1)
  define t3 where "t3 = (let u = t2\<lparr>nextCacheEntry := 0\<rparr>;
                     v = (if decision u \<noteq> TxDecision_ABORT
                           then u\<lparr>decision := TxDecision_COMMIT\<rparr> else u)
                 in v\<lparr>state := DECISION\<rparr>)"
  have ps: "prepareStep b t =
      (if prepareRpcs t2 = [] \<and> nextCacheEntry t2 = length (commitCache t2)
       then Inr t3 else Inr t2)"
    by (simp add: prepareStep_def Inr Let_def t2_def t3_def)
  show ?thesis
  proof (cases "prepareRpcs t2 = [] \<and> nextCacheEntry t2 = length (commitCache t2)")
    case no: False
    have "prepareStep b t = Inr t2"
      unfolding ps by (rule if_not_P[OF no])
    then have "finish (afterPrepare b (prepareStep b t)) = t2"
      using f(1) by (simp add: afterPrepare_def)
    then show ?thesis
      using f nb undc nc d by (auto simp: phaseInv_def advanced_def)
  next
    case True
    have g: "state t3 = DECISION" "status t3 = STATUS_OK"
        "decision t3 \<noteq> TxDecision_INVALID" "rpcFinishedCalls (ramcloud t3) = []"
        "commitCache t3 = c"
        "decision t3 = (if d = TxDecision_ABORT then TxDecision_ABORT else TxDecision_COMMIT)"
      using f by (simp_all add: t3_def Let_def)
    have "prepareStep b t = Inr t3"
      unfolding ps by (rule if_P[OF True])
    then have fin: "finish (afterPrepare b (prepareStep b t)) = finish (decisionStep b t3)"
      using g(1) by (simp add: afterPrepare_def)
    have a1: "advanced t t3"
      using nb g(5,6) d by (auto simp: advanced_def)
    from decisionBlock[OF g(1-4), of b] a1 show ?thesis
      unfolding fin by (auto intro: advanced_trans)
  qed
qed


lemma initTask_frame:
  "state (initTask t) = state t" "status (initTask t) = status t"
  "decision (initTask t) = decision t" "prepareRpcs (initTask t) = prepareRpcs t"
  "decisionRpcs (initTask t) = decisionRpcs t"
  "rpcFinishedCalls (ramcloud (initTask t)) = rpcFinishedCalls (ramcloud t)"
  "sendRequestCalls (ramcloud (initTask t)) = sendRequestCalls (ramcloud t)"
  by (simp_all add: initTask_def Let_def newRpcIdBlock_def getLease_def)

lemma initTask_states:
  "map (\<lambda>e. (fst e, entryState (snd e))) (commitCache (initTask t))
     = map (\<lambda>e. (fst e, entryState (snd e))) (commitCache t)"
  by (rule nth_equalityI) (simp_all add: initTask_fields initTask_entry)

lemma same_states_notBackwards:
  assumes "map (\<lambda>e. (fst e, entryState (snd e))) c' = map (\<lambda>e. (fst e, entryState (snd e))) c"
  shows "list_all2 notBackwards c c'"
proof -
  have len: "length c' = length c"
    using assms by (rule map_eq_imp_length_eq)
  have "\<forall>i < length c. notBackwards (c ! i) (c' ! i)"
  proof (intro allI impI)
    fix i assume i: "i < length c"
    have "map (\<lambda>e. (fst e, entryState (snd e))) c' ! i
        = map (\<lambda>e. (fst e, entryState (snd e))) c ! i"
      using assms by simp
    then show "notBackwards (c ! i) (c' ! i)"
      using i len by (simp add: notBackwards_def)
  qed
  with len show ?thesis by (simp add: list_all2_conv_all_nth)
qed

lemma same_states_list_all:
  assumes "map (\<lambda>e. (fst e, entryState (snd e))) c' = map (\<lambda>e. (fst e, entryState (snd e))) c"
    and "list_all (\<lambda>e. P (entryState (snd e))) c"
  shows "list_all (\<lambda>e. P (entryState (snd e))) c'"
proof -
  have len: "length c' = length c"
    using assms(1) by (rule map_eq_imp_length_eq)
  have "\<forall>i < length c'. P (entryState (snd (c' ! i)))"
  proof (intro allI impI)
    fix i assume i: "i < length c'"
    have "map (\<lambda>e. (fst e, entryState (snd e))) c' ! i
        = map (\<lambda>e. (fst e, entryState (snd e))) c ! i"
      using assms(1) by simp
    then have "entryState (snd (c' ! i)) = entryState (snd (c ! i))"
      using i len by simp
    then show "P (entryState (snd (c' ! i)))"
      using assms(2) i len by (simp add: list_all_length)
  qed
  then show ?thesis by (simp add: list_all_length)
qed

lemma performTaskTry_unfold:
  "performTaskTry b t =
     (if state t = INIT
      then afterPrepare b (prepareStep b ((initTask t)\<lparr>nextCacheEntry := 0, state := PREPARE\<rparr>))
      else if state t = PREPARE then afterPrepare b (prepareStep b t)
      else if state t = DECISION then decisionStep b t
      else Inr t)"
  by (auto simp: performTaskTry_def afterPrepare_def Let_def split: sum.splits)

lemma performTask_inv:
  assumes inv: "phaseInv t"
  shows "phaseInv (performTask b t) \<and> advanced t (performTask b t)"
proof (cases "state t")
  case INIT
  define t1 where "t1 = (initTask t)\<lparr>nextCacheEntry := 0, state := PREPARE\<rparr>"
  have pt: "performTask b t = finish (afterPrepare b (prepareStep b t1))"
    using INIT by (simp add: performTask_finish performTaskTry_unfold t1_def)
  from inv INIT have pend: "list_all (\<lambda>e. entryState (snd e) = CacheEntry_PENDING) (commitCache t)"
    and i0: "status t = STATUS_OK" "decision t = TxDecision_INVALID" "decisionRpcs t = []"
      "rpcFinishedCalls (ramcloud t) = []"
    by (simp_all add: phaseInv_def)
  have und0: "list_all (\<lambda>e. entryState (snd e) \<noteq> CacheEntry_DECIDE) (commitCache t)"
    using pend by (auto simp: list_all_iff)
  have c1: "commitCache t1 = commitCache (initTask t)" by (simp add: t1_def)
  have und: "list_all (\<lambda>e. entryState (snd e) \<noteq> CacheEntry_DECIDE) (commitCache t1)"
    unfolding c1
    by (rule same_states_list_all[where P = "\<lambda>s. s \<noteq> CacheEntry_DECIDE", OF initTask_states und0])
  have a0: "advanced t t1"
    using same_states_notBackwards[OF initTask_states, of t] i0(2)
    by (simp add: advanced_def c1)
  have pre: "state t1 = PREPARE" "status t1 = STATUS_OK" "decision t1 \<noteq> TxDecision_COMMIT"
      "decisionRpcs t1 = []" "rpcFinishedCalls (ramcloud t1) = []"
    using i0 by (simp_all add: t1_def initTask_frame)
  from prepareBlock[OF pre und, of b] a0 show ?thesis
    unfolding pt by (auto intro: advanced_trans)
next
  case PREPARE
  have pt: "performTask b t = finish (afterPrepare b (prepareStep b t))"
    using PREPARE by (simp add: performTask_finish performTaskTry_unfold)
  from inv PREPARE have pre: "status t = STATUS_OK" "decision t \<noteq> TxDecision_COMMIT"
      "decisionRpcs t = []" "rpcFinishedCalls (ramcloud t) = []"
      "list_all (\<lambda>e. entryState (snd e) \<noteq> CacheEntry_DECIDE) (commitCache t)"
    by (simp_all add: phaseInv_def)
  from prepareBlock[OF PREPARE pre, of b] show ?thesis
    unfolding pt .
next
  case DECISION
  have pt: "performTask b t = finish (decisionStep b t)"
    using DECISION by (simp add: performTask_finish performTaskTry_unfold)
  from inv DECISION have pre: "status t = STATUS_OK" "decision t \<noteq> TxDecision_INVALID"
      "rpcFinishedCalls (ramcloud t) = []"
    by (simp_all add: phaseInv_def)
  from decisionBlock[OF DECISION pre, of b] show ?thesis
    unfolding pt .
next
  case DONE
  have "performTask b t = t"
    using DONE by (simp add: performTask_finish performTaskTry_unfold)
  with inv show ?thesis by simp
qed


text \<open>What the arrival of an outcome can change.\<close>

definition eventFrame :: "Task \<Rightarrow> Task \<Rightarrow> bool" where
  "eventFrame t t' =
     (state t' = state t \<and> status t' = status t \<and> decision t' = decision t
      \<and> txId t' = txId t
      \<and> rpcFinishedCalls (ramcloud t') = rpcFinishedCalls (ramcloud t)
      \<and> sendRequestCalls (ramcloud t') = sendRequestCalls (ramcloud t)
      \<and> length (prepareRpcs t') = length (prepareRpcs t)
      \<and> length (decisionRpcs t') = length (decisionRpcs t)
      \<and> length (commitCache t') = length (commitCache t)
      \<and> (\<forall>j < length (commitCache t).
            commitCache t' ! j = commitCache t ! j
            \<or> entryState (snd (commitCache t' ! j)) = CacheEntry_PENDING))"

lemma retryLoop_eventFrame:
  "eventFrame t ((retryLoop slots t)\<lparr>nextCacheEntry := 0\<rparr>)"
proof -
  from retryLoop_shape[of slots t] obtain c fl where
    r: "retryLoop slots t =
       t\<lparr>ramcloud := (ramcloud t)\<lparr>flushCalls := flushCalls (ramcloud t) @ fl\<rparr>,
          commitCache := c\<rparr>"
    by blast
  have ent: "\<forall>j < length (commitCache t).
            commitCache (retryLoop slots t) ! j = commitCache t ! j
            \<or> entryState (snd (commitCache (retryLoop slots t) ! j)) = CacheEntry_PENDING"
    by (simp add: retryLoop_entry)
  have flds: "state (retryLoop slots t) = state t" "status (retryLoop slots t) = status t"
     "decision (retryLoop slots t) = decision t" "txId (retryLoop slots t) = txId t"
     "rpcFinishedCalls (ramcloud (retryLoop slots t)) = rpcFinishedCalls (ramcloud t)"
     "sendRequestCalls (ramcloud (retryLoop slots t)) = sendRequestCalls (ramcloud t)"
     "prepareRpcs (retryLoop slots t) = prepareRpcs t"
     "decisionRpcs (retryLoop slots t) = decisionRpcs t"
    unfolding r by simp_all
  show ?thesis
    using ent flds by (simp add: eventFrame_def)
qed

lemma eventFrame_pre:
  assumes "eventFrame u t'"
    and "state u = state t" "status u = status t" "decision u = decision t" "txId u = txId t"
      "rpcFinishedCalls (ramcloud u) = rpcFinishedCalls (ramcloud t)"
      "sendRequestCalls (ramcloud u) = sendRequestCalls (ramcloud t)"
      "length (prepareRpcs u) = length (prepareRpcs t)"
      "length (decisionRpcs u) = length (decisionRpcs t)"
      "commitCache u = commitCache t"
  shows "eventFrame t t'"
  using assms by (simp add: eventFrame_def)

lemma eventFrame_post:
  assumes "eventFrame t u"
    and "state t' = state u" "status t' = status u" "decision t' = decision u" "txId t' = txId u"
      "rpcFinishedCalls (ramcloud t') = rpcFinishedCalls (ramcloud u)"
      "sendRequestCalls (ramcloud t') = sendRequestCalls (ramcloud u)"
      "length (prepareRpcs t') = length (prepareRpcs u)"
      "length (decisionRpcs t') = length (decisionRpcs u)"
      "commitCache t' = commitCache u"
  shows "eventFrame t t'"
  using assms by (simp add: eventFrame_def)

lemma eventFrame_refl: "eventFrame t t"
  by (simp add: eventFrame_def)

lemma prepareResponseArrives_eventFrame:
  "eventFrame t (prepareResponseArrives i st v t)"
proof (cases "st = STATUS_UNKNOWN_TABLET")
  case False
  then have "prepareResponseArrives i st v t =
      t\<lparr>prepareRpcs := (prepareRpcs t)[i := (prepareRpcs t ! i)
           \<lparr>rpcState := FINISHED, responseStatus := st, p_vote := v\<rparr>]\<rparr>"
    by (simp add: prepareResponseArrives_def PrepareRpc_checkStatus_def Let_def)
  then show ?thesis by (simp add: eventFrame_def)
next
  case True
  define rpc where "rpc = (prepareRpcs t ! i)
           \<lparr>rpcState := FINISHED, responseStatus := st, p_vote := v\<rparr>"
  define u where "u = t\<lparr>prepareRpcs := (prepareRpcs t)[i := rpc]\<rparr>"
  have "prepareResponseArrives i st v t =
      (retryLoop (take (unat (p_opCount rpc)) (p_ops rpc)) u)\<lparr>nextCacheEntry := 0\<rparr>"
    using True
    by (simp add: prepareResponseArrives_def PrepareRpc_checkStatus_def Let_def
          PrepareRpc_retryRequest_def rpc_def u_def)
  then have "eventFrame u (prepareResponseArrives i st v t)"
    by (simp add: retryLoop_eventFrame)
  then show ?thesis
    by (rule eventFrame_pre) (simp_all add: u_def)
qed

lemma decisionResponseArrives_eventFrame:
  "eventFrame t (decisionResponseArrives i st t)"
proof (cases "st = STATUS_UNKNOWN_TABLET")
  case False
  then have "decisionResponseArrives i st t =
      t\<lparr>decisionRpcs := (decisionRpcs t)[i := (decisionRpcs t ! i)
           \<lparr>rpcState := FINISHED, responseStatus := st\<rparr>]\<rparr>"
    by (simp add: decisionResponseArrives_def DecisionRpc_checkStatus_def Let_def)
  then show ?thesis by (simp add: eventFrame_def)
next
  case True
  define rpc where "rpc = (decisionRpcs t ! i)
           \<lparr>rpcState := FINISHED, responseStatus := st\<rparr>"
  define u where "u = t\<lparr>decisionRpcs := (decisionRpcs t)[i := rpc]\<rparr>"
  have "decisionResponseArrives i st t =
      (retryLoop (take (unat (d_participantCount rpc)) (d_ops rpc)) u)\<lparr>nextCacheEntry := 0\<rparr>"
    using True
    by (simp add: decisionResponseArrives_def DecisionRpc_checkStatus_def Let_def
          DecisionRpc_retryRequest_def rpc_def u_def)
  then have "eventFrame u (decisionResponseArrives i st t)"
    by (simp add: retryLoop_eventFrame)
  then show ?thesis
    by (rule eventFrame_pre) (simp_all add: u_def)
qed

lemma prepareTransportFails_eventFrame:
  "eventFrame t (prepareTransportFails i t)"
proof -
  define rpc where "rpc = (prepareRpcs t ! i)\<lparr>rpcState := FAILED\<rparr>"
  define u where "u = (case session rpc of
               Some s \<Rightarrow> t\<lparr>ramcloud := flushSession (serviceLocator s) (ramcloud t)\<rparr>
             | None \<Rightarrow> t)"
  define rpc1 where "rpc1 = (case session rpc of Some s \<Rightarrow> rpc\<lparr>session := None\<rparr> | None \<Rightarrow> rpc)"
  define w where "w = (retryLoop (take (unat (p_opCount rpc)) (p_ops rpc)) u)\<lparr>nextCacheEntry := 0\<rparr>"
  have res: "prepareTransportFails i t = w\<lparr>prepareRpcs := (prepareRpcs w)[i := rpc1]\<rparr>"
    by (simp add: prepareTransportFails_def PrepareRpc_handleTransportError_def Let_def
          PrepareRpc_retryRequest_def rpc_def u_def rpc1_def w_def split: option.splits)
  have "eventFrame u w"
    unfolding w_def by (rule retryLoop_eventFrame)
  then have "eventFrame t w"
    by (rule eventFrame_pre) (simp_all add: u_def flushSession_def split: option.splits)
  then show ?thesis
    by (rule eventFrame_post) (simp_all add: res)
qed

lemma decisionTransportFails_eventFrame:
  "eventFrame t (decisionTransportFails i t)"
proof -
  define rpc where "rpc = (decisionRpcs t ! i)\<lparr>rpcState := FAILED\<rparr>"
  define u where "u = (case session rpc of
               Some s \<Rightarrow> t\<lparr>ramcloud := flushSession (serviceLocator s) (ramcloud t)\<rparr>
             | None \<Rightarrow> t)"
  define rpc1 where "rpc1 = (case session rpc of Some s \<Rightarrow> rpc\<lparr>session := None\<rparr> | None \<Rightarrow> rpc)"
  define w where "w = (retryLoop (take (unat (d_participantCount rpc)) (d_ops rpc)) u)\<lparr>nextCacheEntry := 0\<rparr>"
  have res: "decisionTransportFails i t = w\<lparr>decisionRpcs := (decisionRpcs w)[i := rpc1]\<rparr>"
    by (simp add: decisionTransportFails_def DecisionRpc_handleTransportError_def Let_def
          DecisionRpc_retryRequest_def rpc_def u_def rpc1_def w_def split: option.splits)
  have "eventFrame u w"
    unfolding w_def by (rule retryLoop_eventFrame)
  then have "eventFrame t w"
    by (rule eventFrame_pre) (simp_all add: u_def flushSession_def split: option.splits)
  then show ?thesis
    by (rule eventFrame_post) (simp_all add: res)
qed

lemma eventFrame_inv:
  assumes inv: "phaseInv t" and ef: "eventFrame t t'"
    and busy: "prepareRpcs t \<noteq> [] \<or> decisionRpcs t \<noteq> []"
  shows "phaseInv t'"
proof -
  from inv busy have ni: "state t \<noteq> INIT"
    by (auto simp: phaseInv_def)
  have und: "list_all (\<lambda>e. entryState (snd e) \<noteq> CacheEntry_DECIDE) (commitCache t)
      \<Longrightarrow> list_all (\<lambda>e. entryState (snd e) \<noteq> CacheEntry_DECIDE) (commitCache t')"
  proof -
    assume a: "list_all (\<lambda>e. entryState (snd e) \<noteq> CacheEntry_DECIDE) (commitCache t)"
    have "\<forall>j < length (commitCache t'). entryState (snd (commitCache t' ! j)) \<noteq> CacheEntry_DECIDE"
    proof (intro allI impI)
      fix j assume j: "j < length (commitCache t')"
      then have j': "j < length (commitCache t)" using ef by (simp add: eventFrame_def)
      with ef have "commitCache t' ! j = commitCache t ! j
            \<or> entryState (snd (commitCache t' ! j)) = CacheEntry_PENDING"
        by (simp add: eventFrame_def)
      moreover have "entryState (snd (commitCache t ! j)) \<noteq> CacheEntry_DECIDE"
        using a j' by (simp add: list_all_length)
      ultimately show "entryState (snd (commitCache t' ! j)) \<noteq> CacheEntry_DECIDE"
        by auto
    qed
    then show ?thesis by (simp add: list_all_length)
  qed
  from inv ef ni und show ?thesis
    by (auto simp: phaseInv_def eventFrame_def)
qed

lemma step_inv:
  assumes "step b t t'" and "phaseInv t"
  shows "phaseInv t'"
  using assms
proof (cases rule: step.cases)
  case perform
  with performTask_inv[OF assms(2), of b] show ?thesis by simp
next
  case (prepareResponse i st v)
  then have "prepareRpcs t \<noteq> []" by auto
  with prepareResponse assms(2) show ?thesis
    by (auto intro: eventFrame_inv prepareResponseArrives_eventFrame)
next
  case (prepareFailure i)
  then have "prepareRpcs t \<noteq> []" by auto
  with prepareFailure assms(2) show ?thesis
    by (auto intro: eventFrame_inv prepareTransportFails_eventFrame)
next
  case (decisionResponse i st)
  then have "decisionRpcs t \<noteq> []" by auto
  with decisionResponse assms(2) show ?thesis
    by (auto intro: eventFrame_inv decisionResponseArrives_eventFrame)
next
  case (decisionFailure i)
  then have "decisionRpcs t \<noteq> []" by auto
  with decisionFailure assms(2) show ?thesis
    by (auto intro: eventFrame_inv decisionTransportFails_eventFrame)
next
  case (collaborators rc)
  with assms(2) show ?thesis
    by (simp add: phaseInv_def)
qed

lemma reachable_inv: "reachable b t \<Longrightarrow> phaseInv t"
proof (induction rule: reachable.induct)
  case (start c rc)
  then show ?case
    by (simp add: phaseInv_def staged_def ClientTransactionTask_def)
next
  case (operation t t')
  then show ?case by (auto intro: step_inv)
qed



lemma decisionStep_frame:
  assumes st: "state t = DECISION"
  shows "(state (finish (decisionStep b t)) = DECISION \<or> state (finish (decisionStep b t)) = DONE)
     \<and> decision (finish (decisionStep b t)) = decision t"
proof (cases "processDecisionRpcs b t")
  case (Inl p)
  obtain e t1 where p: "p = (e, t1)" by (cases p)
  from processDecisionLoop_shape[of b 0 t] Inl p
  obtain rs where t1: "t1 = t\<lparr>decisionRpcs := rs\<rparr>"
    by (auto simp: processDecisionRpcs_def)
  have "finish (decisionStep b t) = catchClientException e t1"
    using Inl p by (simp add: decisionStep_def)
  then show ?thesis
    by (simp add: t1 catchClientException_def Let_def)
next
  case (Inr t1)
  from processDecisionLoop_shape[of b 0 t] Inr
  obtain rs where t1: "t1 = t\<lparr>decisionRpcs := rs\<rparr>"
    by (auto simp: processDecisionRpcs_def)
  from sendDecisionRpc_shape[of b t1]
  obtain c n rs' l where t2: "sendDecisionRpc b t1 =
       t1\<lparr>commitCache := c, nextCacheEntry := n, decisionRpcs := decisionRpcs t1 @ rs',
          ramcloud := (ramcloud t1)\<lparr>sendRequestCalls := sendRequestCalls (ramcloud t1) @ l\<rparr>\<rparr>"
    by blast
  define t2 where "t2 = sendDecisionRpc b t1"
  have f: "state t2 = DECISION" "decision t2 = decision t"
    unfolding t2_def t2 using st by (simp_all add: t1)
  have fin: "finish (decisionStep b t) =
      (if decisionRpcs t2 = [] \<and> nextCacheEntry t2 = length (commitCache t2)
       then t2\<lparr>ramcloud := rpcFinished (txId t2) (ramcloud t2), state := DONE\<rparr>
       else t2)"
    by (simp add: decisionStep_def Inr Let_def t2_def)
  show ?thesis
    unfolding fin using f by simp
qed

lemma decisionStep_thrown:
  assumes "decisionStep b t = Inl (e, t1)"
  shows "\<exists>rs. t1 = t\<lparr>decisionRpcs := rs\<rparr>"
proof (cases "processDecisionRpcs b t")
  case (Inl p)
  with assms have p: "p = (e, t1)" by (simp add: decisionStep_def)
  from processDecisionLoop_shape[of b 0 t] Inl p show ?thesis
    by (auto simp: processDecisionRpcs_def)
next
  case (Inr u)
  with assms show ?thesis
    by (simp add: decisionStep_def Let_def split: if_splits)
qed

lemma performTask_in_PREPARE:
  assumes st: "state t = PREPARE"
  shows "processPrepareRpcs b t = Inl (e, t1) \<Longrightarrow>
           performTaskTry b t = Inl (e, t1) \<and> performTask b t = catchClientException e t1
           \<and> state t1 = PREPARE \<and> prepareRpcs t1 \<noteq> [] \<and> e \<noteq> STATUS_OK
           \<and> (decision t1 = decision t \<or> decision t1 = TxDecision_ABORT)"
    and "processPrepareRpcs b t = Inr t1 \<Longrightarrow>
           \<not> (prepareRpcs (sendPrepareRpc b t1) = []
              \<and> nextCacheEntry (sendPrepareRpc b t1) = length (commitCache (sendPrepareRpc b t1)))
           \<Longrightarrow> performTaskTry b t = Inr (sendPrepareRpc b t1)
             \<and> performTask b t = sendPrepareRpc b t1
             \<and> state (sendPrepareRpc b t1) = PREPARE
             \<and> decision (sendPrepareRpc b t1) = decision t1"
    and "processPrepareRpcs b t = Inr t1 \<Longrightarrow>
           prepareRpcs (sendPrepareRpc b t1) = []
              \<and> nextCacheEntry (sendPrepareRpc b t1) = length (commitCache (sendPrepareRpc b t1))
           \<Longrightarrow> performTaskTry b t =
                 decisionStep b ((sendPrepareRpc b t1)
                   \<lparr>nextCacheEntry := 0,
                    decision := (if decision t1 = TxDecision_ABORT
                                 then TxDecision_ABORT else TxDecision_COMMIT),
                    state := DECISION\<rparr>)
             \<and> performTask b t =
                 finish (decisionStep b ((sendPrepareRpc b t1)
                   \<lparr>nextCacheEntry := 0,
                    decision := (if decision t1 = TxDecision_ABORT
                                 then TxDecision_ABORT else TxDecision_COMMIT),
                    state := DECISION\<rparr>))"
proof -
  have pt: "performTaskTry b t = afterPrepare b (prepareStep b t)"
    using st by (simp add: performTaskTry_unfold)
  {
    assume thr: "processPrepareRpcs b t = Inl (e, t1)"
    have ps: "prepareStep b t = Inl (e, t1)"
      using thr by (simp add: prepareStep_def)
    from processPrepareLoop_shape[of b 0 t] thr
    obtain d rs where t1: "t1 = t\<lparr>decision := d, prepareRpcs := rs\<rparr>"
      and d: "d = decision t \<or> d = TxDecision_ABORT"
      by (auto simp: processPrepareRpcs_def)
    from processPrepareLoop_throw[of b 0 t e t1] thr
    have e: "e \<noteq> STATUS_OK" "prepareRpcs t1 \<noteq> []" by (simp_all add: processPrepareRpcs_def)
    show "performTaskTry b t = Inl (e, t1) \<and> performTask b t = catchClientException e t1
           \<and> state t1 = PREPARE \<and> prepareRpcs t1 \<noteq> [] \<and> e \<noteq> STATUS_OK
           \<and> (decision t1 = decision t \<or> decision t1 = TxDecision_ABORT)"
      using e d st by (simp add: performTask_finish pt ps afterPrepare_def t1)
  }
  {
    assume ret: "processPrepareRpcs b t = Inr t1"
    from processPrepareLoop_shape[of b 0 t] ret
    obtain d rs where t1: "t1 = t\<lparr>decision := d, prepareRpcs := rs\<rparr>"
      by (auto simp: processPrepareRpcs_def)
    from sendPrepareRpc_shape[of b t1]
    obtain c n rs' l where t2: "sendPrepareRpc b t1 =
         t1\<lparr>commitCache := c, nextCacheEntry := n, prepareRpcs := prepareRpcs t1 @ rs',
            ramcloud := (ramcloud t1)\<lparr>sendRequestCalls := sendRequestCalls (ramcloud t1) @ l\<rparr>\<rparr>"
      by blast
    define t2 where "t2 = sendPrepareRpc b t1"
    have f: "state t2 = PREPARE" "decision t2 = decision t1"
      unfolding t2_def t2 using st by (simp_all add: t1)
    define t3 where "t3 = t2\<lparr>nextCacheEntry := 0,
                    decision := (if decision t1 = TxDecision_ABORT
                                 then TxDecision_ABORT else TxDecision_COMMIT),
                    state := DECISION\<rparr>"
    have ps: "prepareStep b t =
        (if prepareRpcs t2 = [] \<and> nextCacheEntry t2 = length (commitCache t2)
         then Inr t3 else Inr t2)"
      using f(2) by (simp add: prepareStep_def ret Let_def t2_def t3_def)
    {
      assume no: "\<not> (prepareRpcs (sendPrepareRpc b t1) = []
              \<and> nextCacheEntry (sendPrepareRpc b t1) = length (commitCache (sendPrepareRpc b t1)))"
      then have "prepareStep b t = Inr t2"
        unfolding ps t2_def by (rule if_not_P)
      then show "performTaskTry b t = Inr (sendPrepareRpc b t1)
             \<and> performTask b t = sendPrepareRpc b t1
             \<and> state (sendPrepareRpc b t1) = PREPARE
             \<and> decision (sendPrepareRpc b t1) = decision t1"
        using f by (simp add: performTask_finish pt afterPrepare_def t2_def)
    }
    {
      assume yes: "prepareRpcs (sendPrepareRpc b t1) = []
              \<and> nextCacheEntry (sendPrepareRpc b t1) = length (commitCache (sendPrepareRpc b t1))"
      then have "prepareStep b t = Inr t3"
        unfolding ps t2_def by (rule if_P)
      moreover have "state t3 = DECISION" by (simp add: t3_def)
      ultimately show "performTaskTry b t =
                 decisionStep b ((sendPrepareRpc b t1)
                   \<lparr>nextCacheEntry := 0,
                    decision := (if decision t1 = TxDecision_ABORT
                                 then TxDecision_ABORT else TxDecision_COMMIT),
                    state := DECISION\<rparr>)
             \<and> performTask b t =
                 finish (decisionStep b ((sendPrepareRpc b t1)
                   \<lparr>nextCacheEntry := 0,
                    decision := (if decision t1 = TxDecision_ABORT
                                 then TxDecision_ABORT else TxDecision_COMMIT),
                    state := DECISION\<rparr>))"
        by (simp add: performTask_finish pt afterPrepare_def t3_def t2_def)
    }
  }
qed


lemma sendPrepareRpc_decision: "decision (sendPrepareRpc b t) = decision t"
proof -
  from sendPrepareRpc_shape[of b t]
  obtain c n rs l where "sendPrepareRpc b t =
       t\<lparr>commitCache := c, nextCacheEntry := n, prepareRpcs := prepareRpcs t @ rs,
          ramcloud := (ramcloud t)\<lparr>sendRequestCalls := sendRequestCalls (ramcloud t) @ l\<rparr>\<rparr>"
    by blast
  then show ?thesis by simp
qed

lemma performTaskTry_thrown:
  assumes inv: "phaseInv t" and thr: "performTaskTry b t = Inl (e, t1)"
  shows "(state t1 = PREPARE \<and> decision t1 \<noteq> TxDecision_COMMIT)
       \<or> (state t1 = DECISION \<and> decision t1 \<noteq> TxDecision_INVALID)"
proof -
  have prep: "(state t1 = PREPARE \<and> decision t1 \<noteq> TxDecision_COMMIT)
       \<or> (state t1 = DECISION \<and> decision t1 \<noteq> TxDecision_INVALID)"
    if st: "state u = PREPARE" and nc: "decision u \<noteq> TxDecision_COMMIT"
      and th: "performTaskTry b u = Inl (e, t1)" for u
  proof (cases "processPrepareRpcs b u")
    case (Inl p)
    obtain e' u1 where p: "p = (e', u1)" by (cases p)
    from performTask_in_PREPARE(1)[OF st, of b e' u1] Inl p th
    have "u1 = t1" "state u1 = PREPARE" "decision u1 = decision u \<or> decision u1 = TxDecision_ABORT"
      by simp_all
    with nc show ?thesis by auto
  next
    case (Inr u1)
    show ?thesis
    proof (cases "prepareRpcs (sendPrepareRpc b u1) = []
              \<and> nextCacheEntry (sendPrepareRpc b u1) = length (commitCache (sendPrepareRpc b u1))")
      case False
      have "performTaskTry b u = Inr (sendPrepareRpc b u1)"
        using performTask_in_PREPARE(2)[OF st Inr False] by simp
      with th show ?thesis by simp
    next
      case True
      define u3 where "u3 = (sendPrepareRpc b u1)
                   \<lparr>nextCacheEntry := 0,
                    decision := (if decision u1 = TxDecision_ABORT
                                 then TxDecision_ABORT else TxDecision_COMMIT),
                    state := DECISION\<rparr>"
      from performTask_in_PREPARE(3)[OF st Inr True] th
      have "decisionStep b u3 = Inl (e, t1)" by (simp add: u3_def)
      then obtain rs where "t1 = u3\<lparr>decisionRpcs := rs\<rparr>"
        using decisionStep_thrown by blast
      then show ?thesis by (simp add: u3_def)
    qed
  qed
  show ?thesis
  proof (cases "state t")
    case INIT
    define u where "u = (initTask t)\<lparr>nextCacheEntry := 0, state := PREPARE\<rparr>"
    from inv INIT have "decision t = TxDecision_INVALID" by (simp add: phaseInv_def)
    then have u: "state u = PREPARE" "decision u \<noteq> TxDecision_COMMIT"
      by (simp_all add: u_def initTask_frame)
    have "performTaskTry b u = performTaskTry b t"
      using INIT u(1) by (simp add: performTaskTry_unfold u_def)
    with thr have "performTaskTry b u = Inl (e, t1)" by simp
    with u show ?thesis by (rule prep)
  next
    case PREPARE
    from inv PREPARE have "decision t \<noteq> TxDecision_COMMIT" by (simp add: phaseInv_def)
    with PREPARE thr show ?thesis by (intro prep[of t])
  next
    case DECISION
    from thr DECISION have "decisionStep b t = Inl (e, t1)"
      by (simp add: performTaskTry_unfold)
    then obtain rs where "t1 = t\<lparr>decisionRpcs := rs\<rparr>"
      using decisionStep_thrown by blast
    with inv DECISION show ?thesis by (simp add: phaseInv_def)
  next
    case DONE
    with thr show ?thesis by (simp add: performTaskTry_unfold)
  qed
qed

lemma step_from_DONE:
  assumes "step b t t'" and "state t = DONE"
  shows "state t' = DONE \<and> status t' = status t \<and> decision t' = decision t"
  using assms(1)
proof (cases rule: step.cases)
  case perform
  with assms(2) show ?thesis
    by (simp add: performTask_finish performTaskTry_unfold)
next
  case (prepareResponse i st v)
  with prepareResponseArrives_eventFrame[of t i st v] assms(2) show ?thesis
    by (simp add: eventFrame_def)
next
  case (prepareFailure i)
  with prepareTransportFails_eventFrame[of t i] assms(2) show ?thesis
    by (simp add: eventFrame_def)
next
  case (decisionResponse i st)
  with decisionResponseArrives_eventFrame[of t i st] assms(2) show ?thesis
    by (simp add: eventFrame_def)
next
  case (decisionFailure i)
  with decisionTransportFails_eventFrame[of t i] assms(2) show ?thesis
    by (simp add: eventFrame_def)
next
  case (collaborators rc)
  with assms(2) show ?thesis by simp
qed

section \<open>Runs that reach DONE\<close>

lemma reachable_oneSent: "reachable exampleBuild oneSent"
  unfolding oneSent_def
  by (rule reachable.operation[OF reachable.start step.perform])
     (simp_all add: exampleEntry_def exampleRamCloud_def)

lemma reachable_onePrepared: "reachable exampleBuild onePrepared"
proof -
  have "0 < length (prepareRpcs oneSent)" by code_simp
  moreover have "rpcState (prepareRpcs oneSent ! 0) = IN_PROGRESS" by code_simp
  ultimately have "step exampleBuild oneSent
      (prepareResponseArrives 0 STATUS_OK TxPrepare_COMMIT oneSent)"
    by (rule step.prepareResponse)
  with reachable_oneSent have "reachable exampleBuild
      (prepareResponseArrives 0 STATUS_OK TxPrepare_COMMIT oneSent)"
    by (rule reachable.operation)
  then show ?thesis
    unfolding onePrepared_def oneVoted_def by (rule reachable.operation[OF _ step.perform])
qed

lemma onePrepared_in_flight:
  "0 < length (decisionRpcs onePrepared)"
  "rpcState (decisionRpcs onePrepared ! 0) = IN_PROGRESS"
  by code_simp+

lemma reachable_decisionFailed: "reachable exampleBuild decisionFailed"
  unfolding decisionFailed_def
  by (rule reachable.operation[OF reachable_onePrepared
        step.decisionResponse[OF onePrepared_in_flight]])

lemma reachable_fatalInDecision: "reachable exampleBuild fatalInDecision"
proof -
  show ?thesis
    unfolding fatalInDecision_def
    by (rule reachable.operation[OF reachable_decisionFailed step.perform])
qed

lemma reachable_oneCommitted: "reachable exampleBuild oneCommitted"
  unfolding oneCommitted_def
  by (rule reachable.operation[OF reachable.operation[OF reachable_onePrepared
        step.decisionResponse[OF onePrepared_in_flight]] step.perform])

text \<open>
  C2, as stated, fails. One staged write; the prepare RPC returns \<^verbatim>\<open>STATUS_OK\<close> with vote
  \<^verbatim>\<open>COMMIT\<close>; the decision RPC returns a status that is neither \<^verbatim>\<open>STATUS_OK\<close> nor
  \<^verbatim>\<open>STATUS_UNKNOWN_TABLET\<close>. The run ends in \<^verbatim>\<open>DONE\<close> with that status and with
  \<^verbatim>\<open>decision = COMMIT\<close>.
\<close>

theorem failed_run_keeps_decision:
  "reachable exampleBuild fatalInDecision
   \<and> state fatalInDecision = DONE
   \<and> status fatalInDecision = STATUS_OTHER 7
   \<and> status fatalInDecision \<noteq> STATUS_OK
   \<and> decision fatalInDecision = TxDecision_COMMIT"
proof -
  have "state fatalInDecision = DONE" by code_simp
  moreover have "status fatalInDecision = STATUS_OTHER 7" by code_simp
  moreover have "decision fatalInDecision = TxDecision_COMMIT" by code_simp
  ultimately show ?thesis using reachable_fatalInDecision by simp
qed

lemma performTaskTry_throw:
  "performTaskTry b t = Inl (e, t1) \<Longrightarrow> e \<noteq> STATUS_OK"
  by (auto simp: performTaskTry_unfold afterPrepare_def prepareStep_def decisionStep_def
        processPrepareRpcs_def processDecisionRpcs_def Let_def
      split: if_splits sum.splits
      dest: processPrepareLoop_throw processDecisionLoop_throw)

text \<open>
  C2, amended. Every run that reaches \<^verbatim>\<open>DONE\<close> with \<^verbatim>\<open>status = STATUS_OK\<close> has
  \<^verbatim>\<open>decision\<close> equal to \<^verbatim>\<open>COMMIT\<close> or \<^verbatim>\<open>ABORT\<close>. When the \<^verbatim>\<open>try\<close> block of \<^verbatim>\<open>performTask\<close>
  throws, the call ends in \<^verbatim>\<open>DONE\<close> with the thrown status, which is not \<^verbatim>\<open>STATUS_OK\<close>,
  and with the decision the throw left: \<^verbatim>\<open>INVALID\<close> or \<^verbatim>\<open>ABORT\<close> when the throw came in
  state \<^verbatim>\<open>PREPARE\<close>, \<^verbatim>\<open>COMMIT\<close> or \<^verbatim>\<open>ABORT\<close> when it came in state \<^verbatim>\<open>DECISION\<close>. No
  operation on a task that is \<^verbatim>\<open>DONE\<close> changes its state, status or decision.
\<close>

theorem decision_when_done:
  assumes "reachable b t"
  shows "(state t = DONE \<and> status t = STATUS_OK \<longrightarrow>
            decision t = TxDecision_COMMIT \<or> decision t = TxDecision_ABORT)
     \<and> (\<forall>e t1. performTaskTry b t = Inl (e, t1) \<longrightarrow>
           state (performTask b t) = DONE \<and> status (performTask b t) = e
           \<and> e \<noteq> STATUS_OK
           \<and> decision (performTask b t) = decision t1
           \<and> ((state t1 = PREPARE
                 \<and> (decision t1 = TxDecision_INVALID \<or> decision t1 = TxDecision_ABORT))
               \<or> (state t1 = DECISION
                 \<and> (decision t1 = TxDecision_COMMIT \<or> decision t1 = TxDecision_ABORT))))
     \<and> (\<forall>t'. state t = DONE \<and> step b t t' \<longrightarrow>
           state t' = DONE \<and> status t' = status t \<and> decision t' = decision t)"
proof (intro conjI allI impI)
  have inv: "phaseInv t" using assms by (rule reachable_inv)
  {
    assume "state t = DONE \<and> status t = STATUS_OK"
    with inv have "decision t \<noteq> TxDecision_INVALID"
      by (simp add: phaseInv_def)
    then show "decision t = TxDecision_COMMIT \<or> decision t = TxDecision_ABORT"
      by (cases "decision t") simp_all
  }
  {
    fix e t1 assume thr: "performTaskTry b t = Inl (e, t1)"
    then have pt: "performTask b t = catchClientException e t1"
      by (simp add: performTask_def)
    show "state (performTask b t) = DONE" "status (performTask b t) = e"
        "decision (performTask b t) = decision t1"
      unfolding pt by (simp_all add: catchClientException_def Let_def)
    show "e \<noteq> STATUS_OK" using thr by (rule performTaskTry_throw)
    from performTaskTry_thrown[OF inv thr]
    show "(state t1 = PREPARE
                 \<and> (decision t1 = TxDecision_INVALID \<or> decision t1 = TxDecision_ABORT))
               \<or> (state t1 = DECISION
                 \<and> (decision t1 = TxDecision_COMMIT \<or> decision t1 = TxDecision_ABORT))"
      by (cases "decision t1") auto
  }
  {
    fix t' assume a: "state t = DONE \<and> step b t t'"
    then show "state t' = DONE" "status t' = status t" "decision t' = decision t"
      using step_from_DONE[of b t t'] by simp_all
  }
qed

theorem decision_when_done_witness:
  "reachable exampleBuild oneCommitted \<and> state oneCommitted = DONE
   \<and> status oneCommitted = STATUS_OK
   \<and> (decision oneCommitted = TxDecision_COMMIT \<or> decision oneCommitted = TxDecision_ABORT)
   \<and> reachable exampleBuild decisionFailed
   \<and> map_sum (\<lambda>p. (fst p, state (snd p), decision (snd p))) (\<lambda>t. ())
        (performTaskTry exampleBuild decisionFailed)
       = Inl (STATUS_OTHER 7, DECISION, TxDecision_COMMIT)
   \<and> state (performTask exampleBuild decisionFailed) = DONE
   \<and> status (performTask exampleBuild decisionFailed) = STATUS_OTHER 7
   \<and> decision (performTask exampleBuild decisionFailed) = TxDecision_COMMIT
   \<and> step exampleBuild oneCommitted (performTask exampleBuild oneCommitted)
   \<and> decision (performTask exampleBuild oneCommitted) = decision oneCommitted"
proof -
  have s: "state oneCommitted = DONE" by code_simp
  have o: "status oneCommitted = STATUS_OK" by code_simp
  note th1 = decision_when_done[OF reachable_oneCommitted]
  from th1 s o have d: "decision oneCommitted = TxDecision_COMMIT
      \<or> decision oneCommitted = TxDecision_ABORT"
    by blast
  have st: "step exampleBuild oneCommitted (performTask exampleBuild oneCommitted)"
    by (rule step.perform)
  from th1 s st have k: "decision (performTask exampleBuild oneCommitted) = decision oneCommitted"
    by blast
  have thr: "map_sum (\<lambda>p. (fst p, state (snd p), decision (snd p))) (\<lambda>t. ())
        (performTaskTry exampleBuild decisionFailed)
       = Inl (STATUS_OTHER 7, DECISION, TxDecision_COMMIT)"
    by code_simp
  then obtain t1 where t1: "performTaskTry exampleBuild decisionFailed = Inl (STATUS_OTHER 7, t1)"
    and dt1: "decision t1 = TxDecision_COMMIT"
    by (cases "performTaskTry exampleBuild decisionFailed") auto
  note th2 = decision_when_done[OF reachable_decisionFailed]
  from th2 t1 have "state (performTask exampleBuild decisionFailed) = DONE
      \<and> status (performTask exampleBuild decisionFailed) = STATUS_OTHER 7
      \<and> decision (performTask exampleBuild decisionFailed) = decision t1"
    by blast
  with dt1 reachable_oneCommitted reachable_decisionFailed s o d st k thr show ?thesis
    by simp
qed

text \<open>
  C7. In every reachable state the log of \<^verbatim>\<open>rpcTracker.rpcFinished\<close> calls is empty until
  the task is \<^verbatim>\<open>DONE\<close> and is the single call \<^verbatim>\<open>rpcFinished(txId)\<close> once it is: the call
  is made exactly once, on the transition to \<^verbatim>\<open>DONE\<close>. When the \<^verbatim>\<open>try\<close> block of
  \<^verbatim>\<open>performTask\<close> throws, the call returns with both pipelines empty, the thrown status
  (which is not \<^verbatim>\<open>STATUS_OK\<close>) recorded, that single call logged, and state \<^verbatim>\<open>DONE\<close>.
\<close>

theorem rpcFinished_exactly_once:
  assumes "reachable b t"
  shows "(state t = DONE \<longrightarrow> rpcFinishedCalls (ramcloud t) = [txId t])
     \<and> (state t \<noteq> DONE \<longrightarrow> rpcFinishedCalls (ramcloud t) = [])
     \<and> (state (performTask b t) = DONE \<longrightarrow>
           rpcFinishedCalls (ramcloud (performTask b t)) = [txId (performTask b t)])
     \<and> (\<forall>e t1. performTaskTry b t = Inl (e, t1) \<longrightarrow>
           state (performTask b t) = DONE \<and> status (performTask b t) = e
           \<and> e \<noteq> STATUS_OK
           \<and> prepareRpcs (performTask b t) = [] \<and> decisionRpcs (performTask b t) = []
           \<and> rpcFinishedCalls (ramcloud (performTask b t)) = [txId (performTask b t)])"
proof -
  have inv: "phaseInv t" using assms by (rule reachable_inv)
  have inv': "phaseInv (performTask b t)"
    using performTask_inv[OF inv, of b] by simp
  have a: "state t = DONE \<longrightarrow> rpcFinishedCalls (ramcloud t) = [txId t]"
    using inv by (simp add: phaseInv_def)
  have b: "state t \<noteq> DONE \<longrightarrow> rpcFinishedCalls (ramcloud t) = []"
    using inv by (cases "state t") (simp_all add: phaseInv_def)
  have c: "state (performTask b t) = DONE \<longrightarrow>
           rpcFinishedCalls (ramcloud (performTask b t)) = [txId (performTask b t)]"
    using inv' by (simp add: phaseInv_def)
  have d: "\<forall>e t1. performTaskTry b t = Inl (e, t1) \<longrightarrow>
           state (performTask b t) = DONE \<and> status (performTask b t) = e
           \<and> e \<noteq> STATUS_OK
           \<and> prepareRpcs (performTask b t) = [] \<and> decisionRpcs (performTask b t) = []
           \<and> rpcFinishedCalls (ramcloud (performTask b t)) = [txId (performTask b t)]"
  proof (intro allI impI)
    fix e t1 assume thr: "performTaskTry b t = Inl (e, t1)"
    then have pt: "performTask b t = catchClientException e t1"
      by (simp add: performTask_def)
    have st: "state (performTask b t) = DONE"
      unfolding pt by (simp add: catchClientException_def Let_def)
    from st c have "rpcFinishedCalls (ramcloud (performTask b t)) = [txId (performTask b t)]"
      by simp
    moreover have "status (performTask b t) = e" "prepareRpcs (performTask b t) = []"
        "decisionRpcs (performTask b t) = []"
      unfolding pt by (simp_all add: catchClientException_def Let_def)
    ultimately show "state (performTask b t) = DONE \<and> status (performTask b t) = e
           \<and> e \<noteq> STATUS_OK
           \<and> prepareRpcs (performTask b t) = [] \<and> decisionRpcs (performTask b t) = []
           \<and> rpcFinishedCalls (ramcloud (performTask b t)) = [txId (performTask b t)]"
      using st performTaskTry_throw[OF thr] by simp
  qed
  from a b c d show ?thesis by blast
qed

theorem rpcFinished_exactly_once_witness:
  "reachable exampleBuild decisionFailed
   \<and> state decisionFailed = DECISION
   \<and> rpcFinishedCalls (ramcloud decisionFailed) = []
   \<and> map_sum fst (\<lambda>t. ()) (performTaskTry exampleBuild decisionFailed) = Inl (STATUS_OTHER 7)
   \<and> state (performTask exampleBuild decisionFailed) = DONE
   \<and> status (performTask exampleBuild decisionFailed) = STATUS_OTHER 7
   \<and> prepareRpcs (performTask exampleBuild decisionFailed) = []
   \<and> decisionRpcs (performTask exampleBuild decisionFailed) = []
   \<and> txId (performTask exampleBuild decisionFailed) = 10
   \<and> rpcFinishedCalls (ramcloud (performTask exampleBuild decisionFailed)) = [10]"
proof -
  have s: "state decisionFailed = DECISION" by code_simp
  have thr: "map_sum fst (\<lambda>t. ()) (performTaskTry exampleBuild decisionFailed)
      = Inl (STATUS_OTHER 7)"
    by code_simp
  then obtain t1 where t1: "performTaskTry exampleBuild decisionFailed = Inl (STATUS_OTHER 7, t1)"
    by (cases "performTaskTry exampleBuild decisionFailed") auto
  have tx: "txId (performTask exampleBuild decisionFailed) = 10" by code_simp
  note th = rpcFinished_exactly_once[OF reachable_decisionFailed]
  from th s have "rpcFinishedCalls (ramcloud decisionFailed) = []" by simp
  moreover from th t1 have "state (performTask exampleBuild decisionFailed) = DONE
       \<and> status (performTask exampleBuild decisionFailed) = STATUS_OTHER 7
       \<and> prepareRpcs (performTask exampleBuild decisionFailed) = []
       \<and> decisionRpcs (performTask exampleBuild decisionFailed) = []
       \<and> rpcFinishedCalls (ramcloud (performTask exampleBuild decisionFailed))
          = [txId (performTask exampleBuild decisionFailed)]"
    by blast
  ultimately show ?thesis
    using reachable_decisionFailed s thr tx by simp
qed


section \<open>Entry states and the decision over a run\<close>

text \<open>
  C1, as stated, fails. One staged write is in a prepare RPC in flight, its state is
  \<^verbatim>\<open>PREPARE\<close>; the transport fails, \<^verbatim>\<open>handleTransportError\<close> runs \<^verbatim>\<open>retryRequest\<close>, and the
  state of the entry is \<^verbatim>\<open>PENDING\<close> again.
\<close>

theorem retry_moves_entry_back:
  "reachable exampleBuild oneSent
   \<and> step exampleBuild oneSent (prepareTransportFails 0 oneSent)
   \<and> entryState (snd (commitCache oneSent ! 0)) = CacheEntry_PREPARE
   \<and> entryState (snd (commitCache (prepareTransportFails 0 oneSent) ! 0)) = CacheEntry_PENDING"
proof -
  have "0 < length (prepareRpcs oneSent)" by code_simp
  moreover have "rpcState (prepareRpcs oneSent ! 0) = IN_PROGRESS" by code_simp
  ultimately have "step exampleBuild oneSent (prepareTransportFails 0 oneSent)"
    by (rule step.prepareFailure)
  moreover have "entryState (snd (commitCache oneSent ! 0)) = CacheEntry_PREPARE"
    by code_simp
  moreover have "entryState (snd (commitCache (prepareTransportFails 0 oneSent) ! 0))
      = CacheEntry_PENDING"
    by code_simp
  ultimately show ?thesis using reachable_oneSent by simp
qed

lemma step_entry:
  assumes "step b t t'" and "phaseInv t" and "j < length (commitCache t)"
  shows "entryRank (entryState (snd (commitCache t ! j)))
           \<le> entryRank (entryState (snd (commitCache t' ! j)))
         \<or> entryState (snd (commitCache t' ! j)) = CacheEntry_PENDING"
  using assms(1)
proof (cases rule: step.cases)
  case perform
  from performTask_inv[OF assms(2), of b]
  have "list_all2 notBackwards (commitCache t) (commitCache (performTask b t))"
    by (simp add: advanced_def)
  with assms(3) have "notBackwards (commitCache t ! j) (commitCache (performTask b t) ! j)"
    by (simp add: list_all2_nthD)
  with perform show ?thesis by (simp add: notBackwards_def)
next
  case (prepareResponse i st v)
  with prepareResponseArrives_eventFrame[of t i st v] assms(3) show ?thesis
    by (auto simp: eventFrame_def)
next
  case (prepareFailure i)
  with prepareTransportFails_eventFrame[of t i] assms(3) show ?thesis
    by (auto simp: eventFrame_def)
next
  case (decisionResponse i st)
  with decisionResponseArrives_eventFrame[of t i st] assms(3) show ?thesis
    by (auto simp: eventFrame_def)
next
  case (decisionFailure i)
  with decisionTransportFails_eventFrame[of t i] assms(3) show ?thesis
    by (auto simp: eventFrame_def)
next
  case (collaborators rc)
  then show ?thesis by simp
qed

text \<open>
  C1, amended. In every reachable state, a call of \<^verbatim>\<open>performTask\<close> leaves the cache with
  the same keys in the same order and never moves the state of an entry backwards along
  \<^verbatim>\<open>PENDING\<close>, \<^verbatim>\<open>PREPARE\<close>, \<^verbatim>\<open>DECIDE\<close>; and every operation on the task leaves each entry
  either no further back than it was or in \<^verbatim>\<open>PENDING\<close>, where the retry path puts the
  entries of the RPC it retries.
\<close>

theorem entry_state_advances_or_is_reset:
  assumes "reachable b t" and "j < length (commitCache t)"
  shows "length (commitCache (performTask b t)) = length (commitCache t)
     \<and> fst (commitCache (performTask b t) ! j) = fst (commitCache t ! j)
     \<and> entryRank (entryState (snd (commitCache t ! j)))
           \<le> entryRank (entryState (snd (commitCache (performTask b t) ! j)))
     \<and> (\<forall>t'. step b t t' \<longrightarrow>
           entryRank (entryState (snd (commitCache t ! j)))
             \<le> entryRank (entryState (snd (commitCache t' ! j)))
           \<or> entryState (snd (commitCache t' ! j)) = CacheEntry_PENDING)"
proof -
  have inv: "phaseInv t" using assms(1) by (rule reachable_inv)
  from performTask_inv[OF inv, of b]
  have l: "list_all2 notBackwards (commitCache t) (commitCache (performTask b t))"
    by (simp add: advanced_def)
  then have len: "length (commitCache (performTask b t)) = length (commitCache t)"
    by (simp add: list_all2_lengthD)
  from l assms(2) have "notBackwards (commitCache t ! j) (commitCache (performTask b t) ! j)"
    by (simp add: list_all2_nthD)
  then have nb: "fst (commitCache (performTask b t) ! j) = fst (commitCache t ! j)"
      "entryRank (entryState (snd (commitCache t ! j)))
           \<le> entryRank (entryState (snd (commitCache (performTask b t) ! j)))"
    by (simp_all add: notBackwards_def)
  have "\<forall>t'. step b t t' \<longrightarrow>
           entryRank (entryState (snd (commitCache t ! j)))
             \<le> entryRank (entryState (snd (commitCache t' ! j)))
           \<or> entryState (snd (commitCache t' ! j)) = CacheEntry_PENDING"
    using step_entry[OF _ inv assms(2)] by blast
  with len nb show ?thesis by blast
qed

theorem entry_state_advances_or_is_reset_witness:
  "reachable exampleBuild (staged exampleRamCloud [exampleEntry 1 1])
   \<and> (0::nat) < length (commitCache (staged exampleRamCloud [exampleEntry 1 1]))
   \<and> entryState (snd (commitCache (staged exampleRamCloud [exampleEntry 1 1]) ! 0))
       = CacheEntry_PENDING
   \<and> entryState (snd (commitCache oneSent ! 0)) = CacheEntry_PREPARE
   \<and> entryRank (entryState (snd (commitCache (staged exampleRamCloud [exampleEntry 1 1]) ! 0)))
       \<le> entryRank (entryState (snd (commitCache oneSent ! 0)))"
proof -
  let ?t = "staged exampleRamCloud [exampleEntry 1 1]"
  have r: "reachable exampleBuild ?t"
    by (rule reachable.start) (simp_all add: exampleEntry_def exampleRamCloud_def)
  have j: "0 < length (commitCache ?t)" by (simp add: staged_def)
  have a: "entryState (snd (commitCache ?t ! 0)) = CacheEntry_PENDING" by code_simp
  have c: "entryState (snd (commitCache oneSent ! 0)) = CacheEntry_PREPARE" by code_simp
  from entry_state_advances_or_is_reset[OF r j]
  have "entryRank (entryState (snd (commitCache ?t ! 0)))
       \<le> entryRank (entryState (snd (commitCache (performTask exampleBuild ?t) ! 0)))"
    by blast
  then have "entryRank (entryState (snd (commitCache ?t ! 0)))
       \<le> entryRank (entryState (snd (commitCache oneSent ! 0)))"
    by (simp add: oneSent_def)
  with r j a c show ?thesis by simp
qed











lemma loops_at_end:
  "prepareRpcs t = [] \<Longrightarrow> processPrepareLoop b it t = Inr t"
  "decisionRpcs t = [] \<Longrightarrow> processDecisionLoop b it t = Inr t"
  "length (commitCache t) \<le> nextCacheEntry t \<Longrightarrow> sendPrepareLoop b pn t = (pn, t)"
  "length (commitCache t) \<le> nextCacheEntry t \<Longrightarrow> sendDecisionLoop b dn t = (dn, t)"
  "length (commitCache t) \<le> nextCacheEntry t \<Longrightarrow> initTaskLoop i t = (i, t)"
  by (subst processPrepareLoop.simps, simp)
     (subst processDecisionLoop.simps, simp,
      subst sendPrepareLoop.simps, simp,
      subst sendDecisionLoop.simps, simp,
      subst initTaskLoop.simps, simp)

text \<open>
  C10. A task in \<^verbatim>\<open>INIT\<close> with an empty commit cache: one call of \<^verbatim>\<open>performTask\<close> ends in
  \<^verbatim>\<open>DONE\<close> with \<^verbatim>\<open>status = STATUS_OK\<close> and \<^verbatim>\<open>decision = COMMIT\<close>; both pipelines are empty
  and no request has been sent; \<^verbatim>\<open>rpcFinished\<close> has been called once, with the task's
  \<^verbatim>\<open>txId\<close>, which is the id the tracker handed out.
\<close>

theorem empty_cache_commits_in_one_call:
  assumes "reachable b t" and "state t = INIT" and "commitCache t = []"
  shows "state (performTask b t) = DONE
     \<and> status (performTask b t) = STATUS_OK
     \<and> decision (performTask b t) = TxDecision_COMMIT
     \<and> prepareRpcs (performTask b t) = [] \<and> decisionRpcs (performTask b t) = []
     \<and> sendRequestCalls (ramcloud (performTask b t)) = []
     \<and> txId (performTask b t) = nextRpcId (ramcloud t)
     \<and> rpcFinishedCalls (ramcloud (performTask b t)) = [txId (performTask b t)]"
proof -
  from reachable_inv[OF assms(1)] assms(2)
  have i: "status t = STATUS_OK" "decision t = TxDecision_INVALID" "prepareRpcs t = []"
      "decisionRpcs t = []" "rpcFinishedCalls (ramcloud t) = []"
      "sendRequestCalls (ramcloud t) = []"
    by (simp_all add: phaseInv_def)
  define t1 where "t1 = (initTask t)\<lparr>nextCacheEntry := 0, state := PREPARE\<rparr>"
  have it: "initTask t = t\<lparr>lease := getLease (ramcloud t), txId := nextRpcId (ramcloud t),
        ramcloud := (ramcloud t)\<lparr>nextRpcId := nextRpcId (ramcloud t) + 0\<rparr>,
        nextCacheEntry := 0\<rparr>"
    using assms(3) by (simp add: initTask_def Let_def newRpcIdBlock_def loops_at_end)
  have f1: "prepareRpcs t1 = []" "decisionRpcs t1 = []" "commitCache t1 = []"
      "nextCacheEntry t1 = 0" "state t1 = PREPARE" "decision t1 = TxDecision_INVALID"
      "status t1 = STATUS_OK" "txId t1 = nextRpcId (ramcloud t)"
      "rpcFinishedCalls (ramcloud t1) = []" "sendRequestCalls (ramcloud t1) = []"
    using i assms(3) by (simp_all add: t1_def it)
  define t3 where "t3 = t1\<lparr>nextCacheEntry := 0, decision := TxDecision_COMMIT, state := DECISION\<rparr>"
  have ps: "prepareStep b t1 = Inr t3"
    using f1
    by (simp add: prepareStep_def processPrepareRpcs_def sendPrepareRpc_def loops_at_end
          Let_def t3_def)
  have f3: "decisionRpcs t3 = []" "commitCache t3 = []" "nextCacheEntry t3 = 0"
      "state t3 = DECISION"
    using f1 by (simp_all add: t3_def)
  have ds: "decisionStep b t3 =
      Inr (t3\<lparr>ramcloud := rpcFinished (txId t3) (ramcloud t3), state := DONE\<rparr>)"
    using f3
    by (simp add: decisionStep_def processDecisionRpcs_def sendDecisionRpc_def loops_at_end
          Let_def)
  have "performTask b t = t3\<lparr>ramcloud := rpcFinished (txId t3) (ramcloud t3), state := DONE\<rparr>"
    using assms(2) ps ds f3(4)
    by (simp add: performTask_finish performTaskTry_unfold afterPrepare_def t1_def)
  then show ?thesis
    using f1 by (simp add: t3_def rpcFinished_def)
qed

theorem empty_cache_commits_in_one_call_witness:
  "reachable exampleBuild (staged exampleRamCloud [])
   \<and> state (staged exampleRamCloud []) = INIT
   \<and> commitCache (staged exampleRamCloud []) = []
   \<and> state (performTask exampleBuild (staged exampleRamCloud [])) = DONE
   \<and> decision (performTask exampleBuild (staged exampleRamCloud [])) = TxDecision_COMMIT
   \<and> rpcFinishedCalls (ramcloud (performTask exampleBuild (staged exampleRamCloud []))) = [10]"
proof -
  let ?t = "staged exampleRamCloud []"
  have r: "reachable exampleBuild ?t"
    by (rule reachable.start) (simp_all add: exampleRamCloud_def)
  have s: "state ?t = INIT" and c: "commitCache ?t = []"
    by (simp_all add: staged_def ClientTransactionTask_def)
  have n: "nextRpcId (ramcloud ?t) = 10"
    by (simp add: staged_def ClientTransactionTask_def exampleRamCloud_def)
  from empty_cache_commits_in_one_call[OF r s c] n r s c show ?thesis
    by simp
qed


section \<open>The phase transition and the receive loops\<close>

lemma prepareStep_transition:
  assumes st: "state t = PREPARE"
  shows "performTaskTry b t =
       (case prepareStep b t of
          Inl e \<Rightarrow> Inl e
        | Inr t2 \<Rightarrow> (if state t2 = DECISION then decisionStep b t2 else Inr t2))"
  using st by (simp add: performTaskTry_unfold afterPrepare_def)

text \<open>
  C3. A call of \<^verbatim>\<open>performTask\<close> in state \<^verbatim>\<open>PREPARE\<close>. If \<^verbatim>\<open>processPrepareRpcs\<close> throws, the
  pipeline is not empty at the throw, and the call ends in \<^verbatim>\<open>DONE\<close> through the
  \<^verbatim>\<open>catch\<close> block: there is no transition to \<^verbatim>\<open>DECISION\<close>. Otherwise the task leaves
  \<^verbatim>\<open>PREPARE\<close> in this call exactly when, after \<^verbatim>\<open>sendPrepareRpc\<close>, the pipeline is empty and
  the cursor is at the end of the cache. If that does not hold, the call returns the task
  \<^verbatim>\<open>sendPrepareRpc\<close> left, still in \<^verbatim>\<open>PREPARE\<close>. If it holds, the task enters \<^verbatim>\<open>DECISION\<close>
  with the cursor at the head of the cache and the decision \<^verbatim>\<open>ABORT\<close> if it was \<^verbatim>\<open>ABORT\<close>
  and \<^verbatim>\<open>COMMIT\<close> otherwise, and the same call goes on with the block
  \<^verbatim>\<open>if (state == DECISION)\<close> from that task: the call returns in \<^verbatim>\<open>DECISION\<close> or \<^verbatim>\<open>DONE\<close>
  with that decision.
\<close>

theorem prepare_to_decision_transition:
  assumes st: "state t = PREPARE"
  shows "(\<forall>e t1. processPrepareRpcs b t = Inl (e, t1) \<longrightarrow>
            prepareRpcs t1 \<noteq> [] \<and> state t1 = PREPARE
            \<and> performTask b t = catchClientException e t1
            \<and> state (performTask b t) = DONE)
     \<and> (\<forall>t1. processPrepareRpcs b t = Inr t1 \<longrightarrow>
           (state (performTask b t) \<noteq> PREPARE) =
              (prepareRpcs (sendPrepareRpc b t1) = []
               \<and> nextCacheEntry (sendPrepareRpc b t1)
                   = length (commitCache (sendPrepareRpc b t1))))
     \<and> (\<forall>t1. processPrepareRpcs b t = Inr t1
            \<and> \<not> (prepareRpcs (sendPrepareRpc b t1) = []
                   \<and> nextCacheEntry (sendPrepareRpc b t1)
                       = length (commitCache (sendPrepareRpc b t1))) \<longrightarrow>
           performTask b t = sendPrepareRpc b t1)
     \<and> (\<forall>t1. processPrepareRpcs b t = Inr t1
            \<and> prepareRpcs (sendPrepareRpc b t1) = []
            \<and> nextCacheEntry (sendPrepareRpc b t1)
                = length (commitCache (sendPrepareRpc b t1)) \<longrightarrow>
           performTask b t =
             (case decisionStep b ((sendPrepareRpc b t1)
                     \<lparr>nextCacheEntry := 0,
                      decision := (if decision (sendPrepareRpc b t1) = TxDecision_ABORT
                                   then TxDecision_ABORT else TxDecision_COMMIT),
                      state := DECISION\<rparr>) of
                Inr t' \<Rightarrow> t'
              | Inl (e, t') \<Rightarrow> catchClientException e t')
           \<and> (state (performTask b t) = DECISION \<or> state (performTask b t) = DONE)
           \<and> decision (performTask b t) =
               (if decision (sendPrepareRpc b t1) = TxDecision_ABORT
                then TxDecision_ABORT else TxDecision_COMMIT))
     \<and> performTaskTry b t =
         (case prepareStep b t of
            Inl e \<Rightarrow> Inl e
          | Inr t2 \<Rightarrow> (if state t2 = DECISION then decisionStep b t2 else Inr t2))"
proof -
  have a: "\<forall>e t1. processPrepareRpcs b t = Inl (e, t1) \<longrightarrow>
            prepareRpcs t1 \<noteq> [] \<and> state t1 = PREPARE
            \<and> performTask b t = catchClientException e t1
            \<and> state (performTask b t) = DONE"
  proof (intro allI impI)
    fix e t1 assume thr: "processPrepareRpcs b t = Inl (e, t1)"
    from performTask_in_PREPARE(1)[OF st thr]
    have f: "performTask b t = catchClientException e t1" "state t1 = PREPARE"
        "prepareRpcs t1 \<noteq> []"
      by simp_all
    have "state (performTask b t) = DONE"
      unfolding f(1) by (simp add: catchClientException_def Let_def)
    with f show "prepareRpcs t1 \<noteq> [] \<and> state t1 = PREPARE
            \<and> performTask b t = catchClientException e t1
            \<and> state (performTask b t) = DONE"
      by simp
  qed
  have c: "\<forall>t1. processPrepareRpcs b t = Inr t1
            \<and> \<not> (prepareRpcs (sendPrepareRpc b t1) = []
                   \<and> nextCacheEntry (sendPrepareRpc b t1)
                       = length (commitCache (sendPrepareRpc b t1))) \<longrightarrow>
           performTask b t = sendPrepareRpc b t1"
    using performTask_in_PREPARE(2)[OF st] by blast
  have d: "\<forall>t1. processPrepareRpcs b t = Inr t1
            \<and> prepareRpcs (sendPrepareRpc b t1) = []
            \<and> nextCacheEntry (sendPrepareRpc b t1)
                = length (commitCache (sendPrepareRpc b t1)) \<longrightarrow>
           performTask b t =
             (case decisionStep b ((sendPrepareRpc b t1)
                     \<lparr>nextCacheEntry := 0,
                      decision := (if decision (sendPrepareRpc b t1) = TxDecision_ABORT
                                   then TxDecision_ABORT else TxDecision_COMMIT),
                      state := DECISION\<rparr>) of
                Inr t' \<Rightarrow> t'
              | Inl (e, t') \<Rightarrow> catchClientException e t')
           \<and> (state (performTask b t) = DECISION \<or> state (performTask b t) = DONE)
           \<and> decision (performTask b t) =
               (if decision (sendPrepareRpc b t1) = TxDecision_ABORT
                then TxDecision_ABORT else TxDecision_COMMIT)"
  proof (intro allI impI)
    fix t1 assume h: "processPrepareRpcs b t = Inr t1
            \<and> prepareRpcs (sendPrepareRpc b t1) = []
            \<and> nextCacheEntry (sendPrepareRpc b t1)
                = length (commitCache (sendPrepareRpc b t1))"
    define t3 where "t3 = (sendPrepareRpc b t1)
                     \<lparr>nextCacheEntry := 0,
                      decision := (if decision (sendPrepareRpc b t1) = TxDecision_ABORT
                                   then TxDecision_ABORT else TxDecision_COMMIT),
                      state := DECISION\<rparr>"
    from h have ret: "processPrepareRpcs b t = Inr t1"
      and cond: "prepareRpcs (sendPrepareRpc b t1) = []
            \<and> nextCacheEntry (sendPrepareRpc b t1)
                = length (commitCache (sendPrepareRpc b t1))"
      by simp_all
    from performTask_in_PREPARE(3)[OF st ret cond]
    have pt: "performTask b t = finish (decisionStep b t3)"
      by (simp add: t3_def sendPrepareRpc_decision)
    have s3: "state t3 = DECISION"
      and d3: "decision t3 = (if decision (sendPrepareRpc b t1) = TxDecision_ABORT
                then TxDecision_ABORT else TxDecision_COMMIT)"
      by (simp_all add: t3_def)
    from decisionStep_frame[OF s3, of b] pt d3
    have "(state (performTask b t) = DECISION \<or> state (performTask b t) = DONE)
        \<and> decision (performTask b t) =
               (if decision (sendPrepareRpc b t1) = TxDecision_ABORT
                then TxDecision_ABORT else TxDecision_COMMIT)"
      by simp
    moreover have "performTask b t =
             (case decisionStep b t3 of
                Inr t' \<Rightarrow> t'
              | Inl (e, t') \<Rightarrow> catchClientException e t')"
      unfolding pt by (simp add: finish_def)
    ultimately show "performTask b t =
             (case decisionStep b ((sendPrepareRpc b t1)
                     \<lparr>nextCacheEntry := 0,
                      decision := (if decision (sendPrepareRpc b t1) = TxDecision_ABORT
                                   then TxDecision_ABORT else TxDecision_COMMIT),
                      state := DECISION\<rparr>) of
                Inr t' \<Rightarrow> t'
              | Inl (e, t') \<Rightarrow> catchClientException e t')
           \<and> (state (performTask b t) = DECISION \<or> state (performTask b t) = DONE)
           \<and> decision (performTask b t) =
               (if decision (sendPrepareRpc b t1) = TxDecision_ABORT
                then TxDecision_ABORT else TxDecision_COMMIT)"
      unfolding t3_def by simp
  qed
  have bb: "\<forall>t1. processPrepareRpcs b t = Inr t1 \<longrightarrow>
           (state (performTask b t) \<noteq> PREPARE) =
              (prepareRpcs (sendPrepareRpc b t1) = []
               \<and> nextCacheEntry (sendPrepareRpc b t1)
                   = length (commitCache (sendPrepareRpc b t1)))"
  proof (intro allI impI)
    fix t1 assume ret: "processPrepareRpcs b t = Inr t1"
    show "(state (performTask b t) \<noteq> PREPARE) =
              (prepareRpcs (sendPrepareRpc b t1) = []
               \<and> nextCacheEntry (sendPrepareRpc b t1)
                   = length (commitCache (sendPrepareRpc b t1)))"
    proof (cases "prepareRpcs (sendPrepareRpc b t1) = []
               \<and> nextCacheEntry (sendPrepareRpc b t1)
                   = length (commitCache (sendPrepareRpc b t1))")
      case True
      with d ret have "state (performTask b t) = DECISION \<or> state (performTask b t) = DONE"
        by blast
      with True show ?thesis by auto
    next
      case False
      from performTask_in_PREPARE(2)[OF st ret False]
      have "state (performTask b t) = PREPARE" by simp
      with False show ?thesis by simp
    qed
  qed
  from a bb c d prepareStep_transition[OF st, of b] show ?thesis by blast
qed

theorem prepare_to_decision_transition_witness:
  "state oneVoted = PREPARE
   \<and> map_sum (\<lambda>e. ()) (\<lambda>t1. (prepareRpcs (sendPrepareRpc exampleBuild t1),
        nextCacheEntry (sendPrepareRpc exampleBuild t1),
        length (commitCache (sendPrepareRpc exampleBuild t1)),
        decision (sendPrepareRpc exampleBuild t1)))
       (processPrepareRpcs exampleBuild oneVoted) = Inr ([], 1, 1, TxDecision_INVALID)
   \<and> state (performTask exampleBuild oneVoted) = DECISION
   \<and> decision (performTask exampleBuild oneVoted) = TxDecision_COMMIT
   \<and> state oneSent = PREPARE
   \<and> map_sum (\<lambda>e. ()) (\<lambda>t1. length (prepareRpcs (sendPrepareRpc exampleBuild t1)))
       (processPrepareRpcs exampleBuild oneSent) = Inr 1
   \<and> state (performTask exampleBuild oneSent) = PREPARE"
proof -
  have s: "state oneVoted = PREPARE" by code_simp
  have a: "map_sum (\<lambda>e. ()) (\<lambda>t1. (prepareRpcs (sendPrepareRpc exampleBuild t1),
        nextCacheEntry (sendPrepareRpc exampleBuild t1),
        length (commitCache (sendPrepareRpc exampleBuild t1)),
        decision (sendPrepareRpc exampleBuild t1)))
       (processPrepareRpcs exampleBuild oneVoted) = Inr ([], 1, 1, TxDecision_INVALID)"
    by code_simp
  then obtain t1 where t1: "processPrepareRpcs exampleBuild oneVoted = Inr t1"
    and c1: "prepareRpcs (sendPrepareRpc exampleBuild t1) = []"
      "nextCacheEntry (sendPrepareRpc exampleBuild t1)
         = length (commitCache (sendPrepareRpc exampleBuild t1))"
      "decision (sendPrepareRpc exampleBuild t1) = TxDecision_INVALID"
    by (cases "processPrepareRpcs exampleBuild oneVoted") auto
  from prepare_to_decision_transition[OF s, of exampleBuild] t1 c1(1,2)
  have "decision (performTask exampleBuild oneVoted) =
               (if decision (sendPrepareRpc exampleBuild t1) = TxDecision_ABORT
                then TxDecision_ABORT else TxDecision_COMMIT)"
    by blast
  then have dc: "decision (performTask exampleBuild oneVoted) = TxDecision_COMMIT"
    by (simp add: c1(3))
  have sd: "state (performTask exampleBuild oneVoted) = DECISION" by code_simp
  have s': "state oneSent = PREPARE" by code_simp
  have c: "map_sum (\<lambda>e. ()) (\<lambda>t1. length (prepareRpcs (sendPrepareRpc exampleBuild t1)))
       (processPrepareRpcs exampleBuild oneSent) = Inr 1"
    by code_simp
  then obtain u1 where u1: "processPrepareRpcs exampleBuild oneSent = Inr u1"
    and l2: "length (prepareRpcs (sendPrepareRpc exampleBuild u1)) = 1"
    by (cases "processPrepareRpcs exampleBuild oneSent") auto
  from l2 have c2: "prepareRpcs (sendPrepareRpc exampleBuild u1) \<noteq> []"
    by auto
  from prepare_to_decision_transition[OF s', of exampleBuild] u1 c2
  have "\<not> state (performTask exampleBuild oneSent) \<noteq> PREPARE"
    by blast
  then have sp: "state (performTask exampleBuild oneSent) = PREPARE" by simp
  from s a sd dc s' c sp show ?thesis by simp
qed

lemma reachable_twoReady: "reachable exampleBuild twoReady"
proof -
  let ?u = "performTask exampleBuild (performTask exampleBuild threeStaged)"
  have "reachable exampleBuild threeStaged"
    unfolding threeStaged_def
    by (rule reachable.start) (simp_all add: exampleEntry_def exampleRamCloud_def)
  then have u: "reachable exampleBuild ?u"
    by (intro reachable.operation[OF _ step.perform])
  have "0 < length (prepareRpcs ?u)" "rpcState (prepareRpcs ?u ! 0) = IN_PROGRESS"
    by code_simp+
  then have "step exampleBuild ?u (prepareResponseArrives 0 STATUS_OK TxPrepare_COMMIT ?u)"
    by (rule step.prepareResponse)
  with u have v: "reachable exampleBuild (prepareResponseArrives 0 STATUS_OK TxPrepare_COMMIT ?u)"
    by (rule reachable.operation)
  have "1 < length (prepareRpcs (prepareResponseArrives 0 STATUS_OK TxPrepare_COMMIT ?u))"
    "rpcState (prepareRpcs (prepareResponseArrives 0 STATUS_OK TxPrepare_COMMIT ?u) ! 1)
       = IN_PROGRESS"
    by code_simp+
  then have "step exampleBuild (prepareResponseArrives 0 STATUS_OK TxPrepare_COMMIT ?u) twoReady"
    unfolding twoReady_def by (rule step.prepareResponse)
  with v show ?thesis by (rule reachable.operation)
qed

lemma reachable_twoDecisionsReady: "reachable exampleBuild twoDecisionsReady"
proof -
  let ?u = "performTask exampleBuild
             (performTask exampleBuild (performTask exampleBuild twoReady))"
  have u: "reachable exampleBuild ?u"
    by (intro reachable.operation[OF _ step.perform] reachable_twoReady)
  have "0 < length (decisionRpcs ?u)" "rpcState (decisionRpcs ?u ! 0) = IN_PROGRESS"
    by code_simp+
  then have "step exampleBuild ?u (decisionResponseArrives 0 STATUS_OK ?u)"
    by (rule step.decisionResponse)
  with u have v: "reachable exampleBuild (decisionResponseArrives 0 STATUS_OK ?u)"
    by (rule reachable.operation)
  have "1 < length (decisionRpcs (decisionResponseArrives 0 STATUS_OK ?u))"
    "rpcState (decisionRpcs (decisionResponseArrives 0 STATUS_OK ?u) ! 1) = IN_PROGRESS"
    by code_simp+
  then have "step exampleBuild (decisionResponseArrives 0 STATUS_OK ?u) twoDecisionsReady"
    unfolding twoDecisionsReady_def by (rule step.decisionResponse)
  with v show ?thesis by (rule reachable.operation)
qed

text \<open>
  C9 at the failing input. Three staged writes to one master, at most two objects per
  RPC: two prepare RPCs are in flight and both responses (\<^verbatim>\<open>STATUS_OK\<close>, vote \<^verbatim>\<open>COMMIT\<close>)
  have arrived. \<^verbatim>\<open>processPrepareRpcs\<close> erases the first; \<^verbatim>\<open>erase\<close> leaves the iterator on
  the second and the \<^verbatim>\<open>it++\<close> of the loop header steps over it, so the second RPC, ready
  at the start of the call, is still in the pipeline when the call returns. The same
  happens to the two decision RPCs of that transaction in \<^verbatim>\<open>processDecisionRpcs\<close>.
\<close>

theorem process_skips_rpc_after_erased:
  "reachable exampleBuild twoReady
   \<and> state twoReady = PREPARE
   \<and> map isReady (prepareRpcs twoReady) = [True, True]
   \<and> map responseStatus (prepareRpcs twoReady) = [STATUS_OK, STATUS_OK]
   \<and> map_sum (\<lambda>e. ()) (\<lambda>t'. map isReady (prepareRpcs t')) (processPrepareRpcs b twoReady)
       = Inr [True]
   \<and> map_sum (\<lambda>e. ()) (\<lambda>t'. map p_ops (prepareRpcs t')) (processPrepareRpcs b twoReady)
       = Inr [[2]]
   \<and> reachable exampleBuild twoDecisionsReady
   \<and> state twoDecisionsReady = DECISION
   \<and> map isReady (decisionRpcs twoDecisionsReady) = [True, True]
   \<and> map responseStatus (decisionRpcs twoDecisionsReady) = [STATUS_OK, STATUS_OK]
   \<and> map_sum (\<lambda>e. ()) (\<lambda>t'. map isReady (decisionRpcs t'))
        (processDecisionRpcs b twoDecisionsReady) = Inr [True]"
proof -
  have "state twoReady = PREPARE" by code_simp
  moreover have "map isReady (prepareRpcs twoReady) = [True, True]" by code_simp
  moreover have "map responseStatus (prepareRpcs twoReady) = [STATUS_OK, STATUS_OK]"
    by code_simp
  moreover have "map_sum (\<lambda>e. ()) (\<lambda>t'. map isReady (prepareRpcs t'))
      (processPrepareRpcs b twoReady) = Inr [True]"
    by code_simp
  moreover have "map_sum (\<lambda>e. ()) (\<lambda>t'. map p_ops (prepareRpcs t'))
      (processPrepareRpcs b twoReady) = Inr [[2]]"
    by code_simp
  moreover have "state twoDecisionsReady = DECISION" by code_simp
  moreover have "map isReady (decisionRpcs twoDecisionsReady) = [True, True]" by code_simp
  moreover have "map responseStatus (decisionRpcs twoDecisionsReady) = [STATUS_OK, STATUS_OK]"
    by code_simp
  moreover have "map_sum (\<lambda>e. ()) (\<lambda>t'. map isReady (decisionRpcs t'))
        (processDecisionRpcs b twoDecisionsReady) = Inr [True]"
    by code_simp
  ultimately show ?thesis using reachable_twoReady reachable_twoDecisionsReady by simp
qed


end
